theory Spec2Isabelle
  imports Main "HOL-Library.Multiset" "HOL-Library.List_Lexorder" "HOL-Library.Char_ord"
begin

section \<open>The page list: removing and relocating items\<close>

text \<open>
  The page list of \<^verbatim>\<open>pdfkiwi.py\<close> is a \<^verbatim>\<open>QListWidget\<close>; its items are modelled as a
  list. Rows are Python integers. \<^verbatim>\<open>takeItem(row)\<close> removes and returns the item at a
  row and returns nothing (leaving the list as it is) for a row out of range;
  \<^verbatim>\<open>insertItem(row, item)\<close> clamps the row into \<open>0..count\<close> and ignores a missing item.
\<close>

definition takeItem :: "int \<Rightarrow> 'a list \<Rightarrow> 'a option \<times> 'a list" where
  "takeItem row xs =
     (if 0 \<le> row \<and> row < int (length xs)
      then (Some (xs ! nat row), take (nat row) xs @ drop (Suc (nat row)) xs)
      else (None, xs))"

definition insertItem :: "int \<Rightarrow> 'a option \<Rightarrow> 'a list \<Rightarrow> 'a list" where
  "insertItem row it xs =
     (case it of
        None \<Rightarrow> xs
      | Some x \<Rightarrow>
          (let r = (if row < 0 then 0
                    else if row > int (length xs) then int (length xs)
                    else row)
           in take (nat r) xs @ x # drop (nat r) xs))"

text \<open>\<^verbatim>\<open>sorted({i.row() for i in self.selectedIndexes()})\<close>: the argument lists the rows of
  the selected indexes, in any order and with repetitions.\<close>

definition selected_rows :: "int list \<Rightarrow> int list" where
  "selected_rows sel = sort (remdups sel)"

text \<open>\<^verbatim>\<open>[self.takeItem(r - k) for k, r in enumerate(selected_rows)]\<close>, the counter \<open>k\<close>
  starting at 0.\<close>

fun take_rows :: "int \<Rightarrow> int list \<Rightarrow> 'a list \<Rightarrow> 'a option list \<times> 'a list" where
  "take_rows k [] xs = ([], xs)"
| "take_rows k (r # rs) xs =
     (case takeItem (r - k) xs of
        (it, xs') \<Rightarrow> (case take_rows (k + 1) rs xs' of
                       (its, xs'') \<Rightarrow> (it # its, xs'')))"

text \<open>\<^verbatim>\<open>for i, it in enumerate(items): self.insertItem(insert_at + i, it)\<close>\<close>

fun insert_items :: "int \<Rightarrow> int \<Rightarrow> 'a option list \<Rightarrow> 'a list \<Rightarrow> 'a list" where
  "insert_items insert_at i [] xs = xs"
| "insert_items insert_at i (it # its) xs =
     insert_items insert_at (i + 1) its (insertItem (insert_at + i) it xs)"

text \<open>\<^verbatim>\<open>PageList.dropEvent\<close>: without a drop index, or without a selection, the event goes
  to the default handler of the widget (\<open>Default_drop\<close>, not modelled further).\<close>

datatype 'a drop_outcome = Default_drop | Relocated "'a list"

definition dropEvent :: "int option \<Rightarrow> int list \<Rightarrow> 'a list \<Rightarrow> 'a drop_outcome" where
  "dropEvent drop_index sel xs =
     (case drop_index of
        None \<Rightarrow> Default_drop
      | Some d \<Rightarrow>
          (let rows = selected_rows sel in
           if rows = [] then Default_drop
           else
             (case take_rows 0 rows xs of
                (items, ys) \<Rightarrow>
                  (let removed_before = int (length (filter (\<lambda>r. r < d) rows));
                       insert_at = d - removed_before
                   in Relocated (insert_items insert_at 0 items ys)))))"

text \<open>\<^verbatim>\<open>PageList.remove_selected\<close> and \<^verbatim>\<open>MainWindow._trash_from_list\<close>: the rows in
  descending order, each taken out in turn.\<close>

fun take_each :: "int list \<Rightarrow> 'a list \<Rightarrow> 'a list" where
  "take_each [] xs = xs"
| "take_each (r # rs) xs = take_each rs (snd (takeItem r xs))"

definition remove_selected :: "int list \<Rightarrow> 'a list \<Rightarrow> 'a list" where
  "remove_selected sel xs = take_each (rev (sort (remdups sel))) xs"

definition trash_from_list :: "int list \<Rightarrow> 'a list \<Rightarrow> 'a list" where
  "trash_from_list sel lst = take_each (rev (sort (remdups sel))) lst"

text \<open>The items that a list of \<^verbatim>\<open>takeItem\<close> results holds.\<close>

fun present :: "'a option list \<Rightarrow> 'a list" where
  "present [] = []"
| "present (None # its) = present its"
| "present (Some x # its) = x # present its"

text \<open>The specification's words: a sequence restricted to the indices that satisfy a
  condition, in the original order; and the two-phase relocation rule (extract the
  selected items, lower the target by the number of selected indices below it, put the
  block back at the adjusted target among the remaining items).\<close>

definition spec_restrict :: "(int \<Rightarrow> bool) \<Rightarrow> 'a list \<Rightarrow> 'a list" where
  "spec_restrict keep xs = map snd (filter (\<lambda>(i, x). keep (int i)) (enumerate 0 xs))"

definition spec_relocate :: "int list \<Rightarrow> int \<Rightarrow> 'a list \<Rightarrow> 'a list" where
  "spec_relocate sel t xs =
     (let block = spec_restrict (\<lambda>i. i \<in> set sel) xs;
          remaining = spec_restrict (\<lambda>i. i \<notin> set sel) xs;
          adjustedTarget = t - int (length (filter (\<lambda>i. i < t) (remdups sel)))
      in take (nat adjustedTarget) remaining @ block @ drop (nat adjustedTarget) remaining)"


section \<open>The drop planner\<close>

text \<open>
  A \<^verbatim>\<open>QRect\<close> holds the coordinates of its left, top, right and bottom edges; the
  constructor takes a corner and a size. Its horizontal centre is the sum of the left
  and right edges halved, rounding towards zero. The geometry that
  \<^verbatim>\<open>_compute_drop_position\<close> reads is the list of the items' rectangles, the rectangle
  at position \<open>i\<close> being \<^verbatim>\<open>visualItemRect(item(i))\<close>, and the spacing of the list.
\<close>

record QRect =
  x1 :: int
  y1 :: int
  x2 :: int
  y2 :: int

record QPoint =
  xp :: int
  yp :: int

definition QRect_xywh :: "int \<Rightarrow> int \<Rightarrow> int \<Rightarrow> int \<Rightarrow> QRect" where
  "QRect_xywh x y w h = \<lparr>x1 = x, y1 = y, x2 = x + w - 1, y2 = y + h - 1\<rparr>"

definition left :: "QRect \<Rightarrow> int" where "left r = x1 r"
definition top_edge :: "QRect \<Rightarrow> int" where "top_edge r = y1 r"
definition bottom :: "QRect \<Rightarrow> int" where "bottom r = y2 r"

definition trunc_half :: "int \<Rightarrow> int" where
  "trunc_half s = (if 0 \<le> s then s div 2 else - ((- s) div 2))"

definition center_x :: "QRect \<Rightarrow> int" where
  "center_x r = trunc_half (x1 r + x2 r)"

text \<open>\<^verbatim>\<open>tol_y = max(6, self.spacing())\<close>, and the test
  \<^verbatim>\<open>r.top() - tol_y <= pos.y() <= r.bottom() + tol_y\<close> of the row under the pointer.\<close>

definition tol_y :: "int \<Rightarrow> int" where
  "tol_y spacing = max 6 spacing"

definition in_row :: "int \<Rightarrow> int \<Rightarrow> QRect \<Rightarrow> bool" where
  "in_row spacing y r \<longleftrightarrow> top_edge r - tol_y spacing \<le> y \<and> y \<le> bottom r + tol_y spacing"

definition active_row :: "int \<Rightarrow> QRect list \<Rightarrow> QPoint \<Rightarrow> (int \<times> QRect) list" where
  "active_row spacing rects pos =
     filter (\<lambda>(i, r). in_row spacing (yp pos) r) (zip (map int [0..<length rects]) rects)"

text \<open>The row after \<^verbatim>\<open>row.sort(key=lambda t: t[1].left())\<close>, a stable sort.\<close>

definition sorted_row :: "int \<Rightarrow> QRect list \<Rightarrow> QPoint \<Rightarrow> (int \<times> QRect) list" where
  "sorted_row spacing rects pos = sort_key (\<lambda>t. left (snd t)) (active_row spacing rects pos)"

text \<open>The loop over the sorted row: the first item whose centre is right of the
  pointer, if there is one.\<close>

fun walk :: "QPoint \<Rightarrow> (int \<times> QRect) list \<Rightarrow> (int \<times> QRect) option" where
  "walk pos [] = None"
| "walk pos ((idx, rect) # rest) =
     (if xp pos < center_x rect then Some (idx, rect) else walk pos rest)"

text \<open>\<^verbatim>\<open>PageList._compute_drop_position\<close>, returning the index, the rectangle and the
  side of the marker.\<close>

definition compute_drop_position :: "int \<Rightarrow> QRect list \<Rightarrow> QPoint \<Rightarrow> int \<times> QRect \<times> bool" where
  "compute_drop_position spacing rects pos =
     (let count = int (length rects) in
      if count = 0 then (0, QRect_xywh 12 12 40 80, True)
      else
        let row = active_row spacing rects pos in
        if row = [] then
          (let first_rect = rects ! 0;
               last_rect = rects ! nat (count - 1)
           in if yp pos < top_edge first_rect then (0, first_rect, True)
              else (count - 1, last_rect, False))
        else
          (let row' = sort_key (\<lambda>t. left (snd t)) row in
           case walk pos row' of
             Some (idx, rect) \<Rightarrow> (idx, rect, True)
           | None \<Rightarrow> (fst (last row'), snd (last row'), False)))"

text \<open>\<^verbatim>\<open>PageList.dragMoveEvent\<close>: the drop index kept for the drop.\<close>

definition drag_drop_index :: "int \<Rightarrow> QRect list \<Rightarrow> QPoint \<Rightarrow> int option" where
  "drag_drop_index spacing rects pos =
     (case compute_drop_position spacing rects pos of
        (idx, rect, before) \<Rightarrow> Some (if before then idx else idx + 1))"

section \<open>The export\<close>

text \<open>
  A \<^verbatim>\<open>PageRef\<close> names one page of one source document. The strings that
  \<^verbatim>\<open>create_pdf\<close> builds are modelled character by character: \<^verbatim>\<open>str\<close> of an integer,
  the format \<^verbatim>\<open>{idx:05d}\<close> (sign first, then zeros up to five characters, never
  truncating), \<^verbatim>\<open>os.path.join\<close> and \<^verbatim>\<open>os.path.basename\<close> on POSIX paths.
\<close>

record PageRef =
  src_path :: string
  page_index :: int

definition digit_char :: "nat \<Rightarrow> char" where
  "digit_char d = ''0123456789'' ! d"

fun str_nat :: "nat \<Rightarrow> string" where
  "str_nat n = (if n < 10 then [digit_char n] else str_nat (n div 10) @ [digit_char (n mod 10)])"

declare str_nat.simps [simp del]

definition str_int :: "int \<Rightarrow> string" where
  "str_int i = (if i < 0 then CHR ''-'' # str_nat (nat (- i)) else str_nat (nat i))"

definition zfill :: "nat \<Rightarrow> string \<Rightarrow> string" where
  "zfill w s = replicate (w - length s) CHR ''0'' @ s"

definition format_05d :: "int \<Rightarrow> string" where
  "format_05d i =
     (if i < 0 then CHR ''-'' # zfill 4 (str_nat (nat (- i))) else zfill 5 (str_nat (nat i)))"

definition newline :: char where
  "newline = CHR 0x0A"

definition path_join :: "string \<Rightarrow> string \<Rightarrow> string" where
  "path_join a b =
     (if b \<noteq> [] \<and> hd b = CHR ''/'' then b
      else if a = [] \<or> last a = CHR ''/'' then a @ b
      else a @ ''/'' @ b)"

definition basename :: "string \<Rightarrow> string" where
  "basename p = rev (takeWhile (\<lambda>c. c \<noteq> CHR ''/'') (rev p))"

text \<open>The decimal digits of a number in a fixed width, and the number that a string of
  digits denotes: used to reason about the formatted counters.\<close>

fun digits :: "nat \<Rightarrow> nat \<Rightarrow> string" where
  "digits 0 n = []"
| "digits (Suc k) n = digits k (n div 10) @ [digit_char (n mod 10)]"

definition digit_value :: "char \<Rightarrow> nat" where
  "digit_value c = of_char c - 48"

definition decimal_value :: "string \<Rightarrow> nat" where
  "decimal_value s = foldl (\<lambda>a c. 10 * a + digit_value c) 0 s"

text \<open>
  What the export does to the outside is recorded as a trace of events, in order: the
  look-up of a command (\<^verbatim>\<open>command_exists\<close>), the save dialog, the creation and the
  removal of the temporary directory, every \<^verbatim>\<open>subprocess.run\<close> with its argument
  list, and the message boxes. A process either raises (with the text of the exception)
  or completes with a return code and its standard error output.
\<close>

datatype event =
    Which string
  | SaveDialog
  | MkTemp string
  | Run "string list"
  | Cleanup string
  | InfoBox string string
  | ErrorBox string string

datatype completed = Raised string | Exited int string

text \<open>
  The world is the file system (the content of every path that holds a file) and the
  trace so far. The environment supplies what the program cannot decide: which commands
  exist, what the save dialog returns (the empty string when it is cancelled), the
  directory that \<^verbatim>\<open>tempfile.TemporaryDirectory\<close> creates (or the text of the exception it
  raises), and what running a command does to the file system.
\<close>

record 'c world =
  files :: "string \<Rightarrow> 'c option"
  trace :: "event list"

record 'c env =
  which :: "string \<Rightarrow> bool"
  save_file_name :: string
  mkdtemp :: "string + string"
  run :: "string list \<Rightarrow> (string \<Rightarrow> 'c option) \<Rightarrow> completed \<times> (string \<Rightarrow> 'c option)"

definition log_event :: "event \<Rightarrow> 'c world \<Rightarrow> 'c world" where
  "log_event e w = w\<lparr>trace := trace w @ [e]\<rparr>"

definition info_box :: "string \<Rightarrow> string \<Rightarrow> 'c world \<Rightarrow> 'c world" where
  "info_box title text w = log_event (InfoBox title text) w"

definition error_box :: "string \<Rightarrow> string \<Rightarrow> 'c world \<Rightarrow> 'c world" where
  "error_box title text w = log_event (ErrorBox title text) w"

definition command_exists :: "'c env \<Rightarrow> string \<Rightarrow> 'c world \<Rightarrow> bool \<times> 'c world" where
  "command_exists env cmd w = (which env cmd, log_event (Which cmd) w)"

definition subprocess_run :: "'c env \<Rightarrow> string list \<Rightarrow> 'c world \<Rightarrow> completed \<times> 'c world" where
  "subprocess_run env cmd w =
     (case run env cmd (files w) of
        (r, fs) \<Rightarrow> (r, (log_event (Run cmd) w)\<lparr>files := fs\<rparr>))"

definition path_exists :: "string \<Rightarrow> 'c world \<Rightarrow> bool" where
  "path_exists p w \<longleftrightarrow> files w p \<noteq> None"

text \<open>The paths inside a directory, and leaving the \<^verbatim>\<open>with\<close> block of the temporary
  directory: everything inside it is removed.\<close>

definition under_dir :: "string \<Rightarrow> string \<Rightarrow> bool" where
  "under_dir d p \<longleftrightarrow>
     (let pre = (if d = [] \<or> last d = CHR ''/'' then d else d @ ''/'')
      in take (length pre) p = pre)"

definition cleanup :: "string \<Rightarrow> 'c world \<Rightarrow> 'c world" where
  "cleanup d w =
     (log_event (Cleanup d) w)\<lparr>files := (\<lambda>p. if under_dir d p then None else files w p)\<rparr>"

text \<open>\<^verbatim>\<open>os.path.join(tmpdir, f"part_{idx:05d}.pdf")\<close>, the two command lines and the two
  messages of the \<^verbatim>\<open>RuntimeError\<close>s.\<close>

definition part_path :: "string \<Rightarrow> int \<Rightarrow> string" where
  "part_path tmpdir idx = path_join tmpdir (''part_'' @ format_05d idx @ ''.pdf'')"

definition separate_cmd :: "PageRef \<Rightarrow> string \<Rightarrow> string list" where
  "separate_cmd pr single_path =
     [''pdfseparate'', ''-f'', str_int (page_index pr + 1), ''-l'', str_int (page_index pr + 1),
      src_path pr, single_path]"

definition separate_failed :: "PageRef \<Rightarrow> string \<Rightarrow> string" where
  "separate_failed pr err =
     ''pdfseparate failed for '' @ basename (src_path pr) @ '' page ''
       @ str_int (page_index pr + 1) @ [newline] @ err"

definition unite_cmd :: "string list \<Rightarrow> string \<Rightarrow> string list" where
  "unite_cmd part_files out_path = ''pdfunite'' # part_files @ [out_path]"

definition unite_failed :: "string \<Rightarrow> string" where
  "unite_failed err = ''pdfunite failed:'' @ [newline] @ err"

text \<open>The loop \<^verbatim>\<open>for idx, pr in enumerate(pages, start=1)\<close>: it stops at the first
  failure with the text of the exception, and otherwise returns \<^verbatim>\<open>part_files\<close>.\<close>

fun extract_pages ::
  "'c env \<Rightarrow> string \<Rightarrow> int \<Rightarrow> PageRef list \<Rightarrow> string list \<Rightarrow> 'c world
     \<Rightarrow> (string + string list) \<times> 'c world" where
  "extract_pages env tmpdir idx [] part_files w = (Inr part_files, w)"
| "extract_pages env tmpdir idx (pr # prs) part_files w =
     (let single_path = part_path tmpdir idx in
      case subprocess_run env (separate_cmd pr single_path) w of
        (Raised msg, w') \<Rightarrow> (Inl msg, w')
      | (Exited returncode err, w') \<Rightarrow>
          if returncode \<noteq> 0 \<or> \<not> path_exists single_path w'
          then (Inl (separate_failed pr err), w')
          else extract_pages env tmpdir (idx + 1) prs (part_files @ [single_path]) w')"

text \<open>The body of the \<^verbatim>\<open>with\<close> block, and the block itself, which removes the
  directory however the body ends.\<close>

definition export_in_tmpdir ::
  "'c env \<Rightarrow> string \<Rightarrow> PageRef list \<Rightarrow> string \<Rightarrow> 'c world \<Rightarrow> (string + unit) \<times> 'c world" where
  "export_in_tmpdir env tmpdir pages out_path w =
     (case extract_pages env tmpdir 1 pages [] w of
        (Inl msg, w') \<Rightarrow> (Inl msg, w')
      | (Inr part_files, w') \<Rightarrow>
          (case subprocess_run env (unite_cmd part_files out_path) w' of
             (Raised msg, w'') \<Rightarrow> (Inl msg, w'')
           | (Exited returncode err, w'') \<Rightarrow>
               if returncode \<noteq> 0 then (Inl (unite_failed err), w'') else (Inr (), w'')))"

definition with_temporary_directory ::
  "'c env \<Rightarrow> PageRef list \<Rightarrow> string \<Rightarrow> 'c world \<Rightarrow> (string + unit) \<times> 'c world" where
  "with_temporary_directory env pages out_path w =
     (case mkdtemp env of
        Inl msg \<Rightarrow> (Inl msg, w)
      | Inr tmpdir \<Rightarrow>
          (case export_in_tmpdir env tmpdir pages out_path (log_event (MkTemp tmpdir) w) of
             (res, w') \<Rightarrow> (res, cleanup tmpdir w')))"

text \<open>\<^verbatim>\<open>not command_exists("pdfseparate") or not command_exists("pdfunite")\<close>: the
  second look-up happens only when the first command exists.\<close>

definition missing_tools_text :: string where
  "missing_tools_text =
     ''This app uses `pdfseparate` and `pdfunite` (poppler-utils).'' @ [newline]
       @ ''Install them, e.g.: sudo apt install poppler-utils''"

definition tools_missing :: "'c env \<Rightarrow> 'c world \<Rightarrow> bool \<times> 'c world" where
  "tools_missing env w =
     (case command_exists env ''pdfseparate'' w of
        (have_separate, w') \<Rightarrow>
          if \<not> have_separate then (True, w')
          else (case command_exists env ''pdfunite'' w' of
                  (have_unite, w'') \<Rightarrow> (\<not> have_unite, w'')))"

text \<open>\<^verbatim>\<open>MainWindow.create_pdf\<close> on the pages that \<^verbatim>\<open>_gather_current_pages\<close> returns.\<close>

definition create_pdf :: "'c env \<Rightarrow> PageRef list \<Rightarrow> 'c world \<Rightarrow> 'c world" where
  "create_pdf env pages w =
     (if pages = [] then info_box ''Nothing to export'' ''Add pages first.'' w
      else
        (case tools_missing env w of
           (True, w1) \<Rightarrow> error_box ''Missing tools'' missing_tools_text w1
         | (False, w1) \<Rightarrow>
             (let out_path = save_file_name env;
                  w2 = log_event SaveDialog w1
              in if out_path = [] then w2
                 else
                   (case with_temporary_directory env pages out_path w2 of
                      (Inr u, w3) \<Rightarrow> info_box ''Done'' (''Created:'' @ [newline] @ out_path) w3
                    | (Inl msg, w3) \<Rightarrow> error_box ''Export error'' msg w3))))"

text \<open>The commands run, in order; the temporary files and the extraction commands
  expected for a list of pages; and the world once the tools were found, the output
  path chosen and the temporary directory created.\<close>

definition runs :: "event list \<Rightarrow> string list list" where
  "runs evs = concat (map (\<lambda>e. case e of Run cmd \<Rightarrow> [cmd] | _ \<Rightarrow> []) evs)"

definition part_files_of :: "string \<Rightarrow> int \<Rightarrow> nat \<Rightarrow> string list" where
  "part_files_of tmpdir idx n = map (part_path tmpdir) [idx..idx + int n - 1]"

definition separate_cmds :: "string \<Rightarrow> int \<Rightarrow> PageRef list \<Rightarrow> string list list" where
  "separate_cmds tmpdir idx pages =
     map2 separate_cmd pages (part_files_of tmpdir idx (length pages))"

definition started :: "string \<Rightarrow> 'c world \<Rightarrow> 'c world" where
  "started tmpdir w =
     w\<lparr>trace := trace w @ [Which ''pdfseparate'', Which ''pdfunite'', SaveDialog, MkTemp tmpdir]\<rparr>"

text \<open>
  An environment to run the export on: both tools exist, the dialog returns
  \<^verbatim>\<open>/home/u/out.pdf\<close>, the temporary directory is \<^verbatim>\<open>/tmp/pdfkiwi_x\<close>. The extraction
  writes its destination, except for the destination \<open>bad\<close> (if there is one), where it
  fails; the merge
  writes the whole output when \<open>unite_rc\<close> is 0 and otherwise leaves a truncated file
  and returns \<open>unite_rc\<close>.
\<close>

definition example_run ::
  "string option \<Rightarrow> int \<Rightarrow> string list \<Rightarrow> (string \<Rightarrow> string option)
     \<Rightarrow> completed \<times> (string \<Rightarrow> string option)" where
  "example_run bad unite_rc cmd fs =
     (if hd cmd = ''pdfseparate'' then
        (if Some (last cmd) = bad then (Exited 1 ''bad page'', fs)
         else (Exited 0 [], fs(last cmd \<mapsto> ''page'')))
      else if unite_rc = 0 then (Exited 0 [], fs(last cmd \<mapsto> ''merged''))
      else (Exited unite_rc ''write error'', fs(last cmd \<mapsto> ''%PDF-trunc'')))"

definition example_env :: "string option \<Rightarrow> int \<Rightarrow> string env" where
  "example_env bad unite_rc =
     \<lparr>which = (\<lambda>c. True), save_file_name = ''/home/u/out.pdf'',
      mkdtemp = Inr ''/tmp/pdfkiwi_x'', run = example_run bad unite_rc\<rparr>"

text \<open>The same environment, except that running a command whose destination is \<open>bad\<close>
  raises instead of completing (the program cannot be executed).\<close>

definition raising_run ::
  "string \<Rightarrow> string list \<Rightarrow> (string \<Rightarrow> string option)
     \<Rightarrow> completed \<times> (string \<Rightarrow> string option)" where
  "raising_run bad cmd fs =
     (if last cmd = bad then (Raised ''[Errno 8] Exec format error: pdfseparate'', fs)
      else example_run None 0 cmd fs)"

definition raising_env :: "string \<Rightarrow> string env" where
  "raising_env bad =
     \<lparr>which = (\<lambda>c. True), save_file_name = ''/home/u/out.pdf'',
      mkdtemp = Inr ''/tmp/pdfkiwi_x'', run = raising_run bad\<rparr>"

definition example_world :: "string world" where
  "example_world = \<lparr>files = [''/home/u/a.pdf'' \<mapsto> ''A''], trace = []\<rparr>"

definition page_of :: "int \<Rightarrow> PageRef" where
  "page_of i = \<lparr>src_path = ''/home/u/a.pdf'', page_index = i\<rparr>"

section \<open>Properties of removal and relocation\<close>

lemma spec_restrict_nths: "spec_restrict keep xs = nths xs {i. keep (int i)}"
proof -
  have "map snd (filter (\<lambda>(i, x). keep (int i)) (zip [0..<length xs] xs))
      = map fst (filter (\<lambda>p. snd p \<in> {i. keep (int i)}) (zip xs [0..<length xs]))"
    by (induction xs rule: rev_induct) auto
  then show ?thesis
    by (simp add: spec_restrict_def nths_def enumerate_eq_zip)
qed

lemma nths_cong_set:
  "(\<And>i. i < length xs \<Longrightarrow> i \<in> A \<longleftrightarrow> i \<in> B) \<Longrightarrow> nths xs A = nths xs B"
proof -
  assume h: "\<And>i. i < length xs \<Longrightarrow> i \<in> A \<longleftrightarrow> i \<in> B"
  have "filter (\<lambda>p. snd p \<in> A) (zip xs [0..<length xs])
      = filter (\<lambda>p. snd p \<in> B) (zip xs [0..<length xs])"
    by (rule filter_cong) (auto dest!: set_zip_rightD simp: h)
  then show ?thesis by (simp add: nths_def)
qed

lemma nths_remove_nth:
  assumes "p < length ys"
  shows "nths (take p ys @ drop (Suc p) ys) A
       = nths ys {i. (i < p \<and> i \<in> A) \<or> (p < i \<and> i - 1 \<in> A)}"
proof -
  let ?B = "{i. (i < p \<and> i \<in> A) \<or> (p < i \<and> i - 1 \<in> A)}"
  have split: "ys = take p ys @ ys ! p # drop (Suc p) ys"
    using assms by (simp add: id_take_nth_drop)
  have len: "length (take p ys) = p" using assms by simp
  have l: "nths (take p ys @ drop (Suc p) ys) A
         = nths (take p ys) A @ nths (drop (Suc p) ys) {j. j + p \<in> A}"
    by (simp only: nths_append len)
  have "nths ys ?B = nths (take p ys @ ys ! p # drop (Suc p) ys) ?B"
    using split by simp
  also have "\<dots> = nths (take p ys) ?B @ nths (ys ! p # drop (Suc p) ys) {j. j + p \<in> ?B}"
    by (simp only: nths_append len)
  also have "nths (take p ys) ?B = nths (take p ys) A"
    by (rule nths_cong_set) auto
  also have "nths (ys ! p # drop (Suc p) ys) {j. j + p \<in> ?B}
           = nths (drop (Suc p) ys) {j. j + p \<in> A}"
    by (simp add: nths_Cons)
  finally show ?thesis using l by simp
qed

lemma sorted_wrt_selected_rows: "sorted_wrt (<) (selected_rows sel)"
  by (simp add: selected_rows_def strict_sorted_iff)

lemma set_selected_rows: "set (selected_rows sel) = set sel"
  by (simp add: selected_rows_def)

lemma take_rows_valid:
  "sorted_wrt (<) rs \<Longrightarrow> \<forall>r\<in>set rs. k \<le> r \<and> r < k + int (length ys) \<Longrightarrow>
   take_rows k rs ys =
     (map Some (nths ys {i. int i + k \<in> set rs}), nths ys {i. int i + k \<notin> set rs})"
proof (induction rs arbitrary: k ys)
  case Nil
  then show ?case by (simp add: nths_all)
next
  case (Cons r rs)
  define p where "p = nat (r - k)"
  have p: "p < length ys" "int p = r - k" using Cons.prems by (auto simp: p_def)
  define ys' where "ys' = take p ys @ drop (Suc p) ys"
  have len': "int (length ys') = int (length ys) - 1" using p by (simp add: ys'_def)
  have tk: "takeItem (r - k) ys = (Some (ys ! p), ys')"
    using p Cons.prems by (simp add: takeItem_def ys'_def p_def)
  have gt: "\<forall>r'\<in>set rs. r < r'" using Cons.prems by simp
  have ih: "take_rows (k + 1) rs ys' =
     (map Some (nths ys' {i. int i + (k + 1) \<in> set rs}), nths ys' {i. int i + (k + 1) \<notin> set rs})"
  proof (rule Cons.IH)
    show "sorted_wrt (<) rs" using Cons.prems by simp
    show "\<forall>r\<in>set rs. k + 1 \<le> r \<and> r < k + 1 + int (length ys')"
      using Cons.prems gt len' by auto
  qed
  have split: "ys = take p ys @ ys ! p # drop (Suc p) ys"
    using p by (simp add: id_take_nth_drop)
  have lenp: "length (take p ys) = p" using p by simp
  have rest: "nths ys' {i. int i + (k + 1) \<notin> set rs} = nths ys {i. int i + k \<notin> set (r # rs)}"
    unfolding ys'_def nths_remove_nth[OF p(1)]
    by (rule nths_cong_set) (use p gt in auto)
  have "nths ys {i. int i + k \<in> set (r # rs)}
      = nths (take p ys @ ys ! p # drop (Suc p) ys) {i. int i + k \<in> set (r # rs)}"
    using split by simp
  also have "\<dots> = nths (take p ys) {i. int i + k \<in> set (r # rs)}
        @ nths (ys ! p # drop (Suc p) ys) {j. int (j + p) + k \<in> set (r # rs)}"
    by (simp only: nths_append lenp) simp
  also have "nths (take p ys) {i. int i + k \<in> set (r # rs)} = nths (take p ys) {}"
    by (rule nths_cong_set) (use p gt in auto)
  also have "nths (ys ! p # drop (Suc p) ys) {j. int (j + p) + k \<in> set (r # rs)}
      = ys ! p # nths (drop (Suc p) ys) {j. int (Suc j + p) + k \<in> set rs}"
    using p gt by (auto simp: nths_Cons algebra_simps)
  finally have blockR: "nths ys {i. int i + k \<in> set (r # rs)}
      = ys ! p # nths (drop (Suc p) ys) {j. int (Suc j + p) + k \<in> set rs}" by simp
  have "nths ys' {i. int i + (k + 1) \<in> set rs}
      = nths (take p ys) {i. int i + (k + 1) \<in> set rs}
        @ nths (drop (Suc p) ys) {j. int (j + p) + (k + 1) \<in> set rs}"
    unfolding ys'_def by (simp only: nths_append lenp) simp
  also have "nths (take p ys) {i. int i + (k + 1) \<in> set rs} = nths (take p ys) {}"
    by (rule nths_cong_set) (use p gt in auto)
  finally have blockL: "nths ys' {i. int i + (k + 1) \<in> set rs}
      = nths (drop (Suc p) ys) {j. int (Suc j + p) + k \<in> set rs}"
    by (simp add: add.commute add.left_commute)
  show ?case
    using tk ih rest blockL blockR by simp
qed

lemma insert_items_block:
  assumes "0 \<le> insert_at" and "a = nat (min insert_at (int (length xs)))"
  shows "length pre = nat i \<Longrightarrow> 0 \<le> i \<Longrightarrow>
         insert_items insert_at i (map Some bs) (take a xs @ pre @ drop a xs)
       = take a xs @ pre @ bs @ drop a xs"
proof (induction bs arbitrary: i pre)
  case Nil
  then show ?case by simp
next
  case (Cons b bs)
  let ?ys = "take a xs @ pre @ drop a xs"
  have a: "a \<le> length xs" using assms by auto
  have leny: "length ?ys = length xs + nat i" using a Cons.prems by simp
  have pos: "nat (if insert_at + i < 0 then 0
                  else if insert_at + i > int (length ?ys) then int (length ?ys)
                  else insert_at + i) = a + nat i"
    unfolding leny using assms Cons.prems by auto
  have ins: "insertItem (insert_at + i) (Some b) ?ys = take a xs @ (pre @ [b]) @ drop a xs"
    unfolding insertItem_def option.case Let_def pos
    using a Cons.prems by simp
  have "insert_items insert_at (i + 1) (map Some bs) (take a xs @ (pre @ [b]) @ drop a xs)
      = take a xs @ (pre @ [b]) @ bs @ drop a xs"
    by (rule Cons.IH) (use Cons.prems in \<open>auto simp: nat_add_distrib\<close>)
  then show ?case using ins by simp
qed

lemma count_before_remdups:
  "length (filter (\<lambda>i. i < t) (remdups sel)) = card {i \<in> set sel. i < t}"
proof -
  have "length (filter (\<lambda>i. i < t) (remdups sel))
      = card (set (filter (\<lambda>i. i < t) (remdups sel)))"
    by (metis distinct_remdups distinct_card distinct_filter)
  also have "set (filter (\<lambda>i. i < t) (remdups sel)) = {i \<in> set sel. i < t}"
    by auto
  finally show ?thesis .
qed

lemma card_selected_before:
  "card {i \<in> set sel. i < t} = length (filter (\<lambda>r. r < t) (selected_rows sel))"
proof -
  have d: "distinct (selected_rows sel)" by (simp add: selected_rows_def)
  have "length (filter (\<lambda>r. r < t) (selected_rows sel))
      = card (set (filter (\<lambda>r. r < t) (selected_rows sel)))"
    by (metis d distinct_card distinct_filter)
  also have "set (filter (\<lambda>r. r < t) (selected_rows sel)) = {i \<in> set sel. i < t}"
    by (auto simp: set_selected_rows)
  finally show ?thesis by simp
qed

lemma dropEvent_valid:
  assumes ne: "sel \<noteq> []"
    and valid: "\<forall>r\<in>set sel. 0 \<le> r \<and> r < int (length xs)"
    and t: "0 \<le> t"
  shows "dropEvent (Some t) sel xs = Relocated (spec_relocate sel t xs)"
proof -
  let ?rows = "selected_rows sel"
  let ?block = "nths xs {i. int i \<in> set sel}"
  let ?rest = "nths xs {i. int i \<notin> set sel}"
  let ?adj = "t - int (length (filter (\<lambda>r. r < t) ?rows))"
  have rows_ne: "?rows \<noteq> []" using ne set_selected_rows[of sel] by (cases sel) auto
  have tr: "take_rows 0 ?rows xs = (map Some ?block, ?rest)"
    using take_rows_valid[of ?rows 0 xs] valid
    by (simp add: sorted_wrt_selected_rows set_selected_rows)
  have cnt: "int (length (filter (\<lambda>r. r < t) ?rows)) \<le> t"
  proof -
    have "{i \<in> set sel. i < t} \<subseteq> int ` {..<nat t}"
    proof
      fix i assume "i \<in> {i \<in> set sel. i < t}"
      then have "0 \<le> i" "i < t" using valid by auto
      then have "i = int (nat i)" "nat i < nat t" by auto
      then show "i \<in> int ` {..<nat t}" by blast
    qed
    then have "card {i \<in> set sel. i < t} \<le> card (int ` {..<nat t})"
      by (intro card_mono) auto
    also have "\<dots> = nat t" by (simp add: card_image)
    finally show ?thesis using t by (simp add: card_selected_before)
  qed
  define a where "a = nat (min ?adj (int (length ?rest)))"
  have adj0: "0 \<le> ?adj" using cnt by simp
  have ins: "insert_items ?adj 0 (map Some ?block) (take a ?rest @ [] @ drop a ?rest)
           = take a ?rest @ [] @ ?block @ drop a ?rest"
    by (rule insert_items_block[OF adj0 a_def]) auto
  have ta: "take a ?rest = take (nat ?adj) ?rest" "drop a ?rest = drop (nat ?adj) ?rest"
    using adj0 by (auto simp: a_def min_def)
  have "dropEvent (Some t) sel xs = Relocated (take (nat ?adj) ?rest @ ?block @ drop (nat ?adj) ?rest)"
    using rows_ne tr ins ta by (simp add: dropEvent_def Let_def)
  then show ?thesis
    by (simp add: spec_relocate_def spec_restrict_nths count_before_remdups
        card_selected_before Let_def)
qed

lemma take_each_desc:
  "sorted_wrt (<) rs \<Longrightarrow> take_each (rev rs) xs = nths xs {i. int i \<notin> set rs}"
proof (induction rs arbitrary: xs rule: rev_induct)
  case Nil
  then show ?case by (simp add: nths_all)
next
  case (snoc r rs)
  have srt: "sorted_wrt (<) rs" and mx: "\<forall>x\<in>set rs. x < r"
    using snoc.prems by (auto simp: sorted_wrt_append)
  show ?case
  proof (cases "0 \<le> r \<and> r < int (length xs)")
    case True
    define p where "p = nat r"
    have p: "p < length xs" "int p = r" using True by (auto simp: p_def)
    have "take_each (rev (rs @ [r])) xs
        = nths (take p xs @ drop (Suc p) xs) {i. int i \<notin> set rs}"
      using True snoc.IH[OF srt] by (simp add: takeItem_def p_def)
    also have "\<dots> = nths xs {i. int i \<notin> set (rs @ [r])}"
      unfolding nths_remove_nth[OF p(1)]
      by (rule nths_cong_set) (use p mx in auto)
    finally show ?thesis .
  next
    case False
    have "takeItem r xs = (None, xs)" using False by (auto simp: takeItem_def)
    then have "take_each (rev (rs @ [r])) xs = nths xs {i. int i \<notin> set rs}"
      using snoc.IH[OF srt] by simp
    also have "\<dots> = nths xs {i. int i \<notin> set (rs @ [r])}"
      by (rule nths_cong_set) (use False in auto)
    finally show ?thesis .
  qed
qed

lemma remove_selected_restrict:
  "remove_selected sel xs = spec_restrict (\<lambda>i. i \<notin> set sel) xs"
  using take_each_desc[of "sort (remdups sel)" xs]
  by (simp add: remove_selected_def spec_restrict_nths strict_sorted_iff)

lemma takeItem_mset:
  "takeItem r xs = (it, ys) \<Longrightarrow> mset (present [it]) + mset ys = mset xs"
proof -
  assume h: "takeItem r xs = (it, ys)"
  show ?thesis
  proof (cases "0 \<le> r \<and> r < int (length xs)")
    case True
    then have p: "nat r < length xs" by auto
    have "mset xs = mset (take (nat r) xs @ xs ! nat r # drop (Suc (nat r)) xs)"
      using id_take_nth_drop[OF p] by simp
    then show ?thesis using h True by (auto simp: takeItem_def)
  next
    case False
    then show ?thesis using h by (auto simp: takeItem_def)
  qed
qed

lemma take_rows_mset:
  "take_rows k rs xs = (its, ys) \<Longrightarrow> mset (present its) + mset ys = mset xs"
proof (induction rs arbitrary: k xs its ys)
  case Nil
  then show ?case by simp
next
  case (Cons r rs)
  obtain it xs' where t1: "takeItem (r - k) xs = (it, xs')" by (cases "takeItem (r - k) xs")
  obtain its' ys' where t2: "take_rows (k + 1) rs xs' = (its', ys')"
    by (cases "take_rows (k + 1) rs xs'")
  have e: "its = it # its'" "ys = ys'" using Cons.prems t1 t2 by auto
  have a: "mset (present [it]) + mset xs' = mset xs" by (rule takeItem_mset[OF t1])
  have b: "mset (present its') + mset ys' = mset xs'" by (rule Cons.IH[OF t2])
  have c: "mset (present (it # its')) = mset (present [it]) + mset (present its')"
    by (cases it) auto
  have "mset (present its) + mset ys = mset (present [it]) + (mset (present its') + mset ys')"
    using c e by (simp add: ac_simps)
  also have "\<dots> = mset xs" using a b by simp
  finally show ?case .
qed

lemma insertItem_mset: "mset (insertItem row it xs) = mset (present [it]) + mset xs"
proof (cases it)
  case None
  then show ?thesis by (simp add: insertItem_def)
next
  case (Some x)
  have "\<And>n. mset (take n xs @ x # drop n xs) = add_mset x (mset xs)"
    by (metis append_take_drop_id mset.simps(2) mset_append union_mset_add_mset_right)
  then show ?thesis using Some by (simp add: insertItem_def Let_def)
qed

lemma insert_items_mset:
  "mset (insert_items insert_at i its xs) = mset (present its) + mset xs"
proof (induction its arbitrary: i xs)
  case Nil
  then show ?case by simp
next
  case (Cons it its)
  have c: "mset (present (it # its)) = mset (present [it]) + mset (present its)"
    by (cases it) auto
  show ?case using Cons.IH c by (simp add: insertItem_mset ac_simps)
qed

lemma relocate_contiguous:
  assumes s: "set sel = {a..<b}" and a: "0 \<le> a" "a < b" "b \<le> int (length xs)"
    and t: "a \<le> t" "t \<le> b"
  shows "spec_relocate sel t xs = xs"
proof -
  define A where "A = take (nat a) xs"
  define B where "B = take (nat b - nat a) (drop (nat a) xs)"
  define C where "C = drop (nat b) xs"
  have xs: "xs = A @ B @ C"
    using a unfolding A_def B_def C_def
    by (metis append_take_drop_id drop_drop le_add_diff_inverse2 nat_mono less_imp_le)
  have lA: "length A = nat a" and lB: "length B = nat b - nat a"
    using a by (auto simp: A_def B_def)
  have blk: "nths xs {i. int i \<in> set sel} = B"
  proof -
    have "nths (A @ B @ C) {i. int i \<in> set sel}
        = nths A {i. int i \<in> set sel} @ nths B {j. int (j + nat a) \<in> set sel}
          @ nths C {j. int (j + (nat b - nat a) + nat a) \<in> set sel}"
      by (simp add: nths_append lA lB)
    also have "nths A {i. int i \<in> set sel} = nths A {}"
      by (rule nths_cong_set) (use s lA in auto)
    also have "nths B {j. int (j + nat a) \<in> set sel} = B"
      by (rule nths_all) (use s lB a in auto)
    also have "nths C {j. int (j + (nat b - nat a) + nat a) \<in> set sel} = nths C {}"
      by (rule nths_cong_set) (use s a in auto)
    finally show ?thesis using xs by simp
  qed
  have rst: "nths xs {i. int i \<notin> set sel} = A @ C"
  proof -
    have "nths (A @ B @ C) {i. int i \<notin> set sel}
        = nths A {i. int i \<notin> set sel} @ nths B {j. int (j + nat a) \<notin> set sel}
          @ nths C {j. int (j + (nat b - nat a) + nat a) \<notin> set sel}"
      by (simp add: nths_append lA lB)
    also have "nths A {i. int i \<notin> set sel} = A"
      by (rule nths_all) (use s lA in auto)
    also have "nths B {j. int (j + nat a) \<notin> set sel} = nths B {}"
      by (rule nths_cong_set) (use s lB a in auto)
    also have "nths C {j. int (j + (nat b - nat a) + nat a) \<notin> set sel} = C"
      by (rule nths_all) (use s a in auto)
    finally show ?thesis using xs by simp
  qed
  have "{i \<in> set sel. i < t} = {a..<t}" using s t by auto
  then have cnt: "int (card {i \<in> set sel. i < t}) = t - a" using t by simp
  have "spec_relocate sel t xs = take (nat a) (A @ C) @ B @ drop (nat a) (A @ C)"
    by (simp add: spec_relocate_def spec_restrict_nths count_before_remdups cnt blk rst Let_def)
  also have "\<dots> = A @ B @ C" using lA by simp
  finally show ?thesis using xs by simp
qed

lemma trash_from_list_restrict:
  "trash_from_list sel xs = spec_restrict (\<lambda>i. i \<notin> set sel) xs"
  using take_each_desc[of "sort (remdups sel)" xs]
  by (simp add: trash_from_list_def spec_restrict_nths strict_sorted_iff)

section \<open>Claims about the page list\<close>

text \<open>
  C1. For every sequence of items, every non-empty selection of rows of that sequence and
  every drop index \<open>t \<ge> 0\<close>, the relocation that \<open>dropEvent\<close> performs is the two-phase
  rule: the selected items are extracted in their order, the target is lowered by the
  number of selected rows strictly below it, and the block goes back contiguously at the
  adjusted target among the remaining items. In particular, relocating rows 1 and 3 of
  \<open>[A, B, C, D, E]\<close> to target 4 gives \<open>[A, C, B, D, E]\<close>.
\<close>

theorem C1_relocate_two_phase:
  "(sel \<noteq> [] \<and> (\<forall>r\<in>set sel. 0 \<le> r \<and> r < int (length xs)) \<and> 0 \<le> t
      \<longrightarrow> dropEvent (Some t) sel xs = Relocated (spec_relocate sel t xs))
   \<and> dropEvent (Some 4) [1, 3] [A, B, C, D, E] = Relocated [A, C, B, D, E]
   \<and> spec_relocate [1, 3] 4 [A, B, C, D, E] = [A, C, B, D, E]"
proof (intro conjI impI)
  assume "sel \<noteq> [] \<and> (\<forall>r\<in>set sel. 0 \<le> r \<and> r < int (length xs)) \<and> 0 \<le> t"
  then show "dropEvent (Some t) sel xs = Relocated (spec_relocate sel t xs)"
    by (simp add: dropEvent_valid)
next
  show "dropEvent (Some 4) [1, 3] [A, B, C, D, E] = Relocated [A, C, B, D, E]"
    by (simp add: dropEvent_def selected_rows_def takeItem_def insertItem_def Let_def)
next
  show "spec_relocate [1, 3] 4 [A, B, C, D, E] = [A, C, B, D, E]"
    by (simp add: spec_relocate_def spec_restrict_def enumerate_eq_zip upt_rec)
qed

theorem C1_relocate_two_phase_witness:
  "dropEvent (Some 2) [3, 1, 3] ''ABCDE'' = Relocated (spec_relocate [3, 1, 3] 2 ''ABCDE'')
   \<and> spec_relocate [3, 1, 3] 2 ''ABCDE'' = ''ABDCE''"
proof -
  have s: "spec_relocate [3, 1, 3] 2 ''ABCDE'' = ''ABDCE''"
    by (simp add: spec_relocate_def spec_restrict_def enumerate_eq_zip upt_rec)
  have h: "([3, 1, 3] :: int list) \<noteq> []
      \<and> (\<forall>r\<in>set [3, 1, 3 :: int]. 0 \<le> r \<and> r < int (length ''ABCDE'')) \<and> (0::int) \<le> 2"
    by simp
  show ?thesis
    using C1_relocate_two_phase [of "[3, 1, 3]" "''ABCDE''" 2, THEN conjunct1] h s
    by (simp del: set_simps)
qed

text \<open>
  C4. Removing a set of rows leaves exactly the original sequence restricted to the
  indices outside the set, in the original order, as if all removals happened at once;
  rows out of range (negative, or at or beyond the count) are ignored. Both the list's
  own removal and the removal through the discard area behave so. Removing rows 1 and 3
  of five items keeps the items at 0, 2 and 4.
\<close>

theorem C4_remove_restricts:
  "remove_selected sel xs = spec_restrict (\<lambda>i. i \<notin> set sel) xs
   \<and> trash_from_list sel xs = spec_restrict (\<lambda>i. i \<notin> set sel) xs
   \<and> remove_selected [1, 3] [x0, x1, x2, x3, x4] = [x0, x2, x4]
   \<and> remove_selected [7, 1, -2, 3, 5] [x0, x1, x2, x3, x4] = [x0, x2, x4]"
proof (intro conjI)
  show "remove_selected sel xs = spec_restrict (\<lambda>i. i \<notin> set sel) xs"
    by (rule remove_selected_restrict)
  show "trash_from_list sel xs = spec_restrict (\<lambda>i. i \<notin> set sel) xs"
    by (rule trash_from_list_restrict)
  show "remove_selected [1, 3] [x0, x1, x2, x3, x4] = [x0, x2, x4]"
    by (simp add: remove_selected_def takeItem_def)
  show "remove_selected [7, 1, -2, 3, 5] [x0, x1, x2, x3, x4] = [x0, x2, x4]"
    by (simp add: remove_selected_def takeItem_def)
qed

text \<open>
  C9, as the claim states it, fails: a selection that is not a contiguous run is made
  contiguous by every relocation, so no target leaves the sequence as it was. For rows 1
  and 3 of \<open>ABCDE\<close>, none of the targets 0 to 5 gives \<open>ABCDE\<close> back.
\<close>

theorem C9_relocate_to_self_counterexample:
  "dropEvent (Some 0) [1, 3] ''ABCDE'' = Relocated ''BDACE''
   \<and> dropEvent (Some 1) [1, 3] ''ABCDE'' = Relocated ''ABDCE''
   \<and> dropEvent (Some 2) [1, 3] ''ABCDE'' = Relocated ''ABDCE''
   \<and> dropEvent (Some 3) [1, 3] ''ABCDE'' = Relocated ''ACBDE''
   \<and> dropEvent (Some 4) [1, 3] ''ABCDE'' = Relocated ''ACBDE''
   \<and> dropEvent (Some 5) [1, 3] ''ABCDE'' = Relocated ''ACEBD''
   \<and> ''BDACE'' \<noteq> ''ABCDE'' \<and> ''ABDCE'' \<noteq> ''ABCDE''
   \<and> ''ACBDE'' \<noteq> ''ABCDE'' \<and> ''ACEBD'' \<noteq> ''ABCDE''"
  by (simp add: dropEvent_def selected_rows_def takeItem_def insertItem_def Let_def)

text \<open>
  C9, amended. When the selection is a contiguous run of rows \<open>a..b-1\<close> of the sequence,
  relocating it to any target from \<open>a\<close> to \<open>b\<close> (a position inside the run or at either
  of its ends) leaves the sequence equal to the original.
\<close>

theorem C9_relocate_contiguous_to_self:
  "set sel = {a..<b} \<Longrightarrow> 0 \<le> a \<Longrightarrow> a < b \<Longrightarrow> b \<le> int (length xs) \<Longrightarrow> a \<le> t \<Longrightarrow> t \<le> b
   \<Longrightarrow> dropEvent (Some t) sel xs = Relocated xs"
proof -
  assume s: "set sel = {a..<b}" and a: "0 \<le> a" "a < b" "b \<le> int (length xs)"
    and t: "a \<le> t" "t \<le> b"
  have ne: "sel \<noteq> []" using s a by auto
  have valid: "\<forall>r\<in>set sel. 0 \<le> r \<and> r < int (length xs)" using s a by auto
  have "dropEvent (Some t) sel xs = Relocated (spec_relocate sel t xs)"
    using ne valid a t by (intro dropEvent_valid) auto
  then show ?thesis using relocate_contiguous[OF s a t] by simp
qed

theorem C9_relocate_contiguous_to_self_witness:
  "set [2, 1 :: int] = {1..<3} \<and> (0::int) \<le> 1 \<and> (1::int) < 3 \<and> 3 \<le> int (length ''ABCDE'')
   \<and> (1::int) \<le> 3 \<and> (3::int) \<le> 3
   \<and> dropEvent (Some 3) [2, 1] ''ABCDE'' = Relocated ''ABCDE''"
proof -
  have s: "set [2, 1 :: int] = {1..<3}" by auto
  show ?thesis
    using C9_relocate_contiguous_to_self [of "[2, 1]" 1 3 "''ABCDE''" 3] s by simp
qed

text \<open>
  C10. For every sequence, every non-empty selection and every drop index, the
  relocation performed on drop is a permutation of the original sequence: the length is
  the same and every item occurs as often as before. (The items being a list, their
  indices are \<open>0..count-1\<close> with no gap.) Neither valid rows nor a drop index within
  \<open>0..count\<close> are needed for this.
\<close>

theorem C10_relocate_permutation:
  assumes "sel \<noteq> []"
  shows "\<exists>ys. dropEvent (Some t) sel xs = Relocated ys \<and> mset ys = mset xs
              \<and> length ys = length xs"
proof -
  have rows_ne: "selected_rows sel \<noteq> []"
    using assms set_selected_rows[of sel] by (cases sel) auto
  obtain its ys where tr: "take_rows 0 (selected_rows sel) xs = (its, ys)"
    by (cases "take_rows 0 (selected_rows sel) xs")
  define zs where "zs = insert_items
      (t - int (length (filter (\<lambda>r. r < t) (selected_rows sel)))) 0 its ys"
  have d: "dropEvent (Some t) sel xs = Relocated zs"
    using rows_ne tr by (simp add: dropEvent_def zs_def Let_def)
  have m: "mset zs = mset xs"
    using take_rows_mset[OF tr] by (simp add: zs_def insert_items_mset)
  then have "length zs = length xs" by (rule mset_eq_length)
  then show ?thesis using d m by blast
qed

theorem C10_relocate_permutation_witness:
  "([0, 4] :: int list) \<noteq> []
   \<and> (\<exists>ys. dropEvent (Some 2) [0, 4] ''ABCDE'' = Relocated ys
        \<and> mset ys = mset ''ABCDE'' \<and> length ys = length ''ABCDE'')"
  using C10_relocate_permutation [of "[0, 4]" 2 "''ABCDE''"] by simp
section \<open>Properties of the drop planner\<close>

lemma walk_first:
  "row = pre @ (i, r) # post \<Longrightarrow> \<forall>q\<in>set pre. center_x (snd q) \<le> xp pos \<Longrightarrow>
   xp pos < center_x r \<Longrightarrow> walk pos row = Some (i, r)"
  by (induction pre arbitrary: row) auto

lemma walk_none: "\<forall>q\<in>set row. center_x (snd q) \<le> xp pos \<Longrightarrow> walk pos row = None"
  by (induction row) auto

lemma walk_Some:
  "walk pos row = Some (i, r) \<Longrightarrow>
   \<exists>pre post. row = pre @ (i, r) # post \<and> (\<forall>q\<in>set pre. center_x (snd q) \<le> xp pos)
     \<and> xp pos < center_x r"
proof (induction row)
  case Nil
  then show ?case by simp
next
  case (Cons a row)
  obtain j q where a: "a = (j, q)" by (cases a)
  show ?case
  proof (cases "xp pos < center_x q")
    case True
    then have "(i, r) = (j, q)" using Cons.prems a by simp
    then have "a # row = [] @ (i, r) # row" using a by simp
    then show ?thesis using True \<open>(i, r) = (j, q)\<close> by (metis empty_iff list.set(1) prod.inject)
  next
    case False
    then have "walk pos row = Some (i, r)" using Cons.prems a by simp
    then obtain pre post where h: "row = pre @ (i, r) # post"
      "\<forall>q\<in>set pre. center_x (snd q) \<le> xp pos" "xp pos < center_x r"
      using Cons.IH by blast
    have "a # row = (a # pre) @ (i, r) # post" using h by simp
    moreover have "\<forall>q\<in>set (a # pre). center_x (snd q) \<le> xp pos" using h False a by auto
    ultimately show ?thesis using h(3) by blast
  qed
qed

lemma last_sort_key_max:
  "xs \<noteq> [] \<Longrightarrow> \<forall>q\<in>set xs. f q \<le> f (last (sort_key f xs))"
proof -
  assume ne: "xs \<noteq> []"
  let ?s = "sort_key f xs"
  have s: "sorted (map f ?s)" by simp
  have ne': "?s \<noteq> []" using ne by (metis length_0_conv length_sort)
  have "\<forall>q\<in>set ?s. f q \<le> f (last ?s)"
  proof
    fix q assume "q \<in> set ?s"
    then obtain n where n: "n < length ?s" "?s ! n = q" by (metis in_set_conv_nth)
    have "map f ?s ! n \<le> map f ?s ! (length ?s - 1)"
      by (rule sorted_nth_mono[OF s]) (use n in auto)
    then show "f q \<le> f (last ?s)" using n ne' by (simp add: last_conv_nth)
  qed
  then show ?thesis by simp
qed

lemma active_row_empty_iff:
  "active_row sp rects pos = [] \<longleftrightarrow> (\<forall>r\<in>set rects. \<not> in_row sp (yp pos) r)"
proof -
  let ?z = "zip (map int [0..<length rects]) rects"
  have "map snd ?z = rects" by simp
  then have s: "set rects = snd ` set ?z" by (metis set_map)
  have "active_row sp rects pos = [] \<longleftrightarrow> (\<forall>p\<in>set ?z. \<not> in_row sp (yp pos) (snd p))"
    unfolding active_row_def filter_empty_conv by (simp add: case_prod_beta)
  also have "\<dots> \<longleftrightarrow> (\<forall>r\<in>snd ` set ?z. \<not> in_row sp (yp pos) r)" by blast
  finally show ?thesis using s by simp
qed

lemma compute_in_row:
  assumes "active_row sp rects pos \<noteq> []"
  shows "compute_drop_position sp rects pos =
     (case walk pos (sorted_row sp rects pos) of
        Some (idx, rect) \<Rightarrow> (idx, rect, True)
      | None \<Rightarrow> (fst (last (sorted_row sp rects pos)), snd (last (sorted_row sp rects pos)), False))"
proof -
  have "rects \<noteq> []" using assms by (auto simp: active_row_def)
  then show ?thesis
    unfolding sorted_row_def using assms by (simp add: compute_drop_position_def Let_def)
qed

lemma compute_no_row:
  assumes "rects \<noteq> []" and "\<forall>r\<in>set rects. \<not> in_row sp (yp pos) r"
  shows "compute_drop_position sp rects pos =
     (if yp pos < top_edge (hd rects) then (0, hd rects, True)
      else (int (length rects) - 1, last rects, False))"
proof -
  have e: "active_row sp rects pos = []" using assms(2) by (simp add: active_row_empty_iff)
  have n: "nat (int (length rects) - 1) = length rects - 1" by simp
  show ?thesis
    using assms(1) e
    by (simp add: compute_drop_position_def Let_def hd_conv_nth last_conv_nth n del: of_nat_diff)
qed

lemma two_item_row:
  assumes "in_row sp y r0" "in_row sp y r1" "left r0 \<le> left r1"
  shows "sorted_row sp [r0, r1] \<lparr>xp = x, yp = y\<rparr> = [(0, r0), (1, r1)]"
  using assms by (simp add: sorted_row_def active_row_def)

lemma active_row_index:
  "(i, r) \<in> set (active_row sp rects pos) \<Longrightarrow> 0 \<le> i \<and> i < int (length rects)"
proof -
  assume "(i, r) \<in> set (active_row sp rects pos)"
  then have "(i, r) \<in> set (zip (map int [0..<length rects]) rects)"
    by (simp add: active_row_def)
  then have "i \<in> set (map int [0..<length rects])" by (rule set_zip_leftD)
  then show ?thesis by auto
qed

lemma drag_drop_index_range:
  "\<exists>d. drag_drop_index sp rects pos = Some d \<and> 0 \<le> d \<and> d \<le> int (length rects)"
proof (cases "rects = []")
  case True
  then show ?thesis by (simp add: drag_drop_index_def compute_drop_position_def)
next
  case False
  show ?thesis
  proof (cases "active_row sp rects pos = []")
    case True
    then have "\<forall>r\<in>set rects. \<not> in_row sp (yp pos) r" by (simp add: active_row_empty_iff)
    then show ?thesis
      using False by (simp add: drag_drop_index_def compute_no_row)
  next
    case ne: False
    let ?row = "sorted_row sp rects pos"
    have st: "set ?row = set (active_row sp rects pos)" by (simp add: sorted_row_def)
    have rne: "?row \<noteq> []" using ne st by (metis set_empty)
    show ?thesis
    proof (cases "walk pos ?row")
      case None
      have "last ?row \<in> set (active_row sp rects pos)" using rne st last_in_set by blast
      then have "0 \<le> fst (last ?row) \<and> fst (last ?row) < int (length rects)"
        using active_row_index[of "fst (last ?row)" "snd (last ?row)"] by simp
      then show ?thesis using None by (simp add: drag_drop_index_def compute_in_row[OF ne])
    next
      case (Some a)
      obtain i r where a: "a = (i, r)" by (cases a)
      have "(i, r) \<in> set ?row" using walk_Some[of pos ?row i r] Some a by auto
      then have "0 \<le> i \<and> i < int (length rects)" using st active_row_index by blast
      then show ?thesis using Some a by (simp add: drag_drop_index_def compute_in_row[OF ne])
    qed
  qed
qed

section \<open>Claims about the drop planner\<close>

text \<open>
  C3. When the active row (the items whose span, widened by the tolerance, contains the
  pointer's y-coordinate) is not empty, the planner walks it in the order of the left
  edges: for the first item whose horizontal centre strictly exceeds the pointer's
  x-coordinate it returns that item's index with the marker on its left, and when the
  pointer is at or right of every centre of the row it returns the index of the last
  item of the sorted row, whose left edge is the greatest of the row, with the marker on
  its right. For two items of one row with centres 50 and 150, the pointer at x = 49
  targets before the left item, at x = 51 before the right item, at x = 151 after the
  right item.
\<close>

theorem C3_center_rule:
  "(active_row sp rects pos \<noteq> [] \<longrightarrow>
      (\<forall>pre i r post.
          sorted_row sp rects pos = pre @ (i, r) # post
          \<and> (\<forall>q\<in>set pre. center_x (snd q) \<le> xp pos) \<and> xp pos < center_x r
          \<longrightarrow> compute_drop_position sp rects pos = (i, r, True))
      \<and> ((\<forall>q\<in>set (sorted_row sp rects pos). center_x (snd q) \<le> xp pos)
          \<longrightarrow> compute_drop_position sp rects pos
               = (fst (last (sorted_row sp rects pos)), snd (last (sorted_row sp rects pos)), False))
      \<and> sorted (map (\<lambda>t. left (snd t)) (sorted_row sp rects pos))
      \<and> mset (sorted_row sp rects pos) = mset (active_row sp rects pos)
      \<and> (\<forall>q\<in>set (active_row sp rects pos).
            left (snd q) \<le> left (snd (last (sorted_row sp rects pos)))))
   \<and> (center_x r0 = 50 \<and> center_x r1 = 150 \<and> left r0 \<le> left r1
        \<and> in_row sp y r0 \<and> in_row sp y r1 \<longrightarrow>
        compute_drop_position sp [r0, r1] \<lparr>xp = 49, yp = y\<rparr> = (0, r0, True)
        \<and> compute_drop_position sp [r0, r1] \<lparr>xp = 51, yp = y\<rparr> = (1, r1, True)
        \<and> compute_drop_position sp [r0, r1] \<lparr>xp = 151, yp = y\<rparr> = (1, r1, False))"
proof (intro conjI impI allI)
  fix pre i r post
  assume ne: "active_row sp rects pos \<noteq> []"
    and h: "sorted_row sp rects pos = pre @ (i, r) # post
          \<and> (\<forall>q\<in>set pre. center_x (snd q) \<le> xp pos) \<and> xp pos < center_x r"
  have "walk pos (sorted_row sp rects pos) = Some (i, r)"
    using h by (intro walk_first[of _ pre i r post]) auto
  then show "compute_drop_position sp rects pos = (i, r, True)"
    by (simp add: compute_in_row[OF ne])
next
  assume ne: "active_row sp rects pos \<noteq> []"
    and h: "\<forall>q\<in>set (sorted_row sp rects pos). center_x (snd q) \<le> xp pos"
  have "walk pos (sorted_row sp rects pos) = None" using h by (rule walk_none)
  then show "compute_drop_position sp rects pos
      = (fst (last (sorted_row sp rects pos)), snd (last (sorted_row sp rects pos)), False)"
    by (simp add: compute_in_row[OF ne])
next
  show "sorted (map (\<lambda>t. left (snd t)) (sorted_row sp rects pos))"
    by (simp add: sorted_row_def)
next
  show "mset (sorted_row sp rects pos) = mset (active_row sp rects pos)"
    by (simp add: sorted_row_def)
next
  assume ne: "active_row sp rects pos \<noteq> []"
  show "\<forall>q\<in>set (active_row sp rects pos).
      left (snd q) \<le> left (snd (last (sorted_row sp rects pos)))"
    unfolding sorted_row_def by (rule last_sort_key_max[OF ne])
next
  assume h: "center_x r0 = 50 \<and> center_x r1 = 150 \<and> left r0 \<le> left r1
        \<and> in_row sp y r0 \<and> in_row sp y r1"
  have ne: "\<And>x. active_row sp [r0, r1] \<lparr>xp = x, yp = y\<rparr> \<noteq> []"
    using h by (simp add: active_row_empty_iff)
  have row: "\<And>x. sorted_row sp [r0, r1] \<lparr>xp = x, yp = y\<rparr> = [(0, r0), (1, r1)]"
    using h by (intro two_item_row) auto
  show "compute_drop_position sp [r0, r1] \<lparr>xp = 49, yp = y\<rparr> = (0, r0, True)"
    using h by (simp add: compute_in_row[OF ne] row)
  show "compute_drop_position sp [r0, r1] \<lparr>xp = 51, yp = y\<rparr> = (1, r1, True)"
    using h by (simp add: compute_in_row[OF ne] row)
  show "compute_drop_position sp [r0, r1] \<lparr>xp = 151, yp = y\<rparr> = (1, r1, False)"
    using h by (simp add: compute_in_row[OF ne] row)
qed

theorem C3_center_rule_witness:
  "compute_drop_position 10 [QRect_xywh 0 0 101 100, QRect_xywh 100 0 101 100] \<lparr>xp = 49, yp = 20\<rparr>
     = (0, QRect_xywh 0 0 101 100, True)
   \<and> compute_drop_position 10 [QRect_xywh 0 0 101 100, QRect_xywh 100 0 101 100] \<lparr>xp = 51, yp = 20\<rparr>
     = (1, QRect_xywh 100 0 101 100, True)
   \<and> compute_drop_position 10 [QRect_xywh 0 0 101 100, QRect_xywh 100 0 101 100] \<lparr>xp = 151, yp = 20\<rparr>
     = (1, QRect_xywh 100 0 101 100, False)
   \<and> compute_drop_position 10 [QRect_xywh 100 0 101 100, QRect_xywh 0 0 101 100] \<lparr>xp = 60, yp = 20\<rparr>
     = (0, QRect_xywh 100 0 101 100, True)
   \<and> compute_drop_position 10 [QRect_xywh 100 0 101 100, QRect_xywh 0 0 101 100] \<lparr>xp = 150, yp = 20\<rparr>
     = (0, QRect_xywh 100 0 101 100, False)"
proof -
  let ?r0 = "QRect_xywh 0 0 101 100" and ?r1 = "QRect_xywh 100 0 101 100"
  have c: "center_x ?r0 = 50" "center_x ?r1 = 150" "left ?r0 \<le> left ?r1"
    by (simp_all add: center_x_def trunc_half_def QRect_xywh_def left_def)
  have r: "in_row 10 20 ?r0" "in_row 10 20 ?r1"
    by (simp_all add: in_row_def tol_y_def top_edge_def bottom_def QRect_xywh_def)
  have ex: "compute_drop_position 10 [?r0, ?r1] \<lparr>xp = 49, yp = 20\<rparr> = (0, ?r0, True)
      \<and> compute_drop_position 10 [?r0, ?r1] \<lparr>xp = 51, yp = 20\<rparr> = (1, ?r1, True)
      \<and> compute_drop_position 10 [?r0, ?r1] \<lparr>xp = 151, yp = 20\<rparr> = (1, ?r1, False)"
    using C3_center_rule [where ?r0.0 = ?r0 and ?r1.0 = ?r1 and sp = 10 and y = 20, THEN conjunct2]
      c r by blast
  let ?rects = "[?r1, ?r0]"
  let ?p = "\<lparr>xp = 60, yp = 20\<rparr>" and ?q = "\<lparr>xp = 150, yp = 20\<rparr>"
  have ne: "active_row 10 ?rects ?p \<noteq> []" "active_row 10 ?rects ?q \<noteq> []"
    using r by (simp_all add: active_row_empty_iff)
  have row: "sorted_row 10 ?rects ?p = [(1, ?r0), (0, ?r1)]"
    "sorted_row 10 ?rects ?q = [(1, ?r0), (0, ?r1)]"
    using r by (simp_all add: sorted_row_def active_row_def left_def QRect_xywh_def)
  have g: "\<And>pos. active_row 10 ?rects pos \<noteq> [] \<Longrightarrow>
      (\<forall>pre i r post.
          sorted_row 10 ?rects pos = pre @ (i, r) # post
          \<and> (\<forall>q\<in>set pre. center_x (snd q) \<le> xp pos) \<and> xp pos < center_x r
          \<longrightarrow> compute_drop_position 10 ?rects pos = (i, r, True))
      \<and> ((\<forall>q\<in>set (sorted_row 10 ?rects pos). center_x (snd q) \<le> xp pos)
          \<longrightarrow> compute_drop_position 10 ?rects pos
               = (fst (last (sorted_row 10 ?rects pos)), snd (last (sorted_row 10 ?rects pos)), False))"
    using C3_center_rule [where sp = 10 and rects = ?rects, THEN conjunct1] by blast
  have a: "compute_drop_position 10 ?rects ?p = (0, ?r1, True)"
  proof -
    have "sorted_row 10 ?rects ?p = [(1, ?r0)] @ (0, ?r1) # []
        \<and> (\<forall>q\<in>set [(1::int, ?r0)]. center_x (snd q) \<le> xp ?p) \<and> xp ?p < center_x ?r1"
      using row c by simp
    then show ?thesis using g[OF ne(1)] by blast
  qed
  have b: "compute_drop_position 10 ?rects ?q = (0, ?r1, False)"
  proof -
    have "\<forall>q\<in>set (sorted_row 10 ?rects ?q). center_x (snd q) \<le> xp ?q"
      using row c by simp
    then have "compute_drop_position 10 ?rects ?q
        = (fst (last (sorted_row 10 ?rects ?q)), snd (last (sorted_row 10 ?rects ?q)), False)"
      using g[OF ne(2)] by blast
    then show ?thesis using row by simp
  qed
  show ?thesis using ex a b by simp
qed

text \<open>
  C6. With no item the planner returns index 0 with the marker on the left. With items,
  when no item's span widened by the tolerance contains the pointer's y-coordinate, it
  returns index 0 with the marker on the left if the pointer is above the top of the
  first item, and otherwise the last index with the marker on the right.
\<close>

theorem C6_clamp:
  "compute_drop_position sp [] pos = (0, QRect_xywh 12 12 40 80, True)
   \<and> (rects \<noteq> [] \<and> (\<forall>r\<in>set rects. \<not> in_row sp (yp pos) r) \<longrightarrow>
        compute_drop_position sp rects pos =
          (if yp pos < top_edge (hd rects) then (0, hd rects, True)
           else (int (length rects) - 1, last rects, False)))"
proof (intro conjI impI)
  show "compute_drop_position sp [] pos = (0, QRect_xywh 12 12 40 80, True)"
    by (simp add: compute_drop_position_def)
next
  assume h: "rects \<noteq> [] \<and> (\<forall>r\<in>set rects. \<not> in_row sp (yp pos) r)"
  then have e: "active_row sp rects pos = []" by (simp add: active_row_empty_iff)
  have n: "nat (int (length rects) - 1) = length rects - 1" by simp
  show "compute_drop_position sp rects pos =
          (if yp pos < top_edge (hd rects) then (0, hd rects, True)
           else (int (length rects) - 1, last rects, False))"
    using h e
    by (simp add: compute_drop_position_def Let_def hd_conv_nth last_conv_nth n del: of_nat_diff)
qed

theorem C6_clamp_witness:
  "compute_drop_position 10 [QRect_xywh 0 0 101 100, QRect_xywh 100 0 101 100] \<lparr>xp = 5, yp = 200\<rparr>
     = (1, QRect_xywh 100 0 101 100, False)
   \<and> compute_drop_position 10 [QRect_xywh 0 0 101 100, QRect_xywh 100 0 101 100] \<lparr>xp = 5, yp = - 200\<rparr>
     = (0, QRect_xywh 0 0 101 100, True)"
proof -
  let ?rects = "[QRect_xywh 0 0 101 100, QRect_xywh 100 0 101 100]"
  have h: "\<And>x. ?rects \<noteq> [] \<and> (\<forall>r\<in>set ?rects. \<not> in_row 10 (yp \<lparr>xp = x, yp = 200\<rparr>) r)"
    "\<And>x. ?rects \<noteq> [] \<and> (\<forall>r\<in>set ?rects. \<not> in_row 10 (yp \<lparr>xp = x, yp = - 200\<rparr>) r)"
    by (simp_all add: in_row_def tol_y_def top_edge_def bottom_def QRect_xywh_def)
  show ?thesis
    using C6_clamp [of 10 "\<lparr>xp = 5, yp = 200\<rparr>" ?rects, THEN conjunct2] h(1)[of 5]
      C6_clamp [of 10 "\<lparr>xp = 5, yp = - 200\<rparr>" ?rects, THEN conjunct2] h(2)[of 5]
    by (simp add: top_edge_def QRect_xywh_def)
qed
section \<open>Properties of the export\<close>

lemma lex_append_same_length:
  "length xs = length ys \<Longrightarrow> xs < ys \<Longrightarrow> xs @ a < ys @ (b :: 'a :: order list)"
  by (induction xs ys rule: list_induct2) auto

lemma lex_prefix_cancel: "p @ xs < p @ ys \<longleftrightarrow> xs < (ys :: 'a :: order list)"
  by (induction p) auto

lemma digit_char_cases:
  "d < 10 \<Longrightarrow> d = 0 \<or> d = 1 \<or> d = 2 \<or> d = 3 \<or> d = 4 \<or> d = 5 \<or> d = 6 \<or> d = 7 \<or> d = 8 \<or> d = (9::nat)"
  by arith

lemma of_char_digit_char: "d < 10 \<Longrightarrow> of_char (digit_char d) = 48 + d"
  using digit_char_cases[of d] by (auto simp: digit_char_def)

lemma digit_value_digit_char: "d < 10 \<Longrightarrow> digit_value (digit_char d) = d"
  by (simp add: digit_value_def of_char_digit_char)

lemma digit_char_less: "d < 10 \<Longrightarrow> e < 10 \<Longrightarrow> digit_char d < digit_char e \<longleftrightarrow> d < e"
  by (simp add: less_char_def of_char_digit_char)

lemma digit_char_0: "digit_char 0 = CHR ''0''"
  by (simp add: digit_char_def)

lemma length_digits: "length (digits k n) = k"
  by (induction k arbitrary: n) auto

lemma digits_zero: "digits k 0 = replicate k CHR ''0''"
  by (induction k) (auto simp: digit_char_0 replicate_append_same)

lemma length_str_nat: "n < 10 ^ k \<Longrightarrow> 0 < k \<Longrightarrow> length (str_nat n) \<le> k"
proof (induction k arbitrary: n)
  case 0
  then show ?case by simp
next
  case (Suc k)
  show ?case
  proof (cases "n < 10")
    case True
    then show ?thesis by (simp add: str_nat.simps)
  next
    case False
    then have k: "0 < k" using Suc.prems by (cases k) auto
    have "n div 10 < 10 ^ k" using Suc.prems by (simp add: less_mult_imp_div_less mult.commute)
    then have "length (str_nat (n div 10)) \<le> k" using Suc.IH k by simp
    then show ?thesis using False by (simp add: str_nat.simps[of n])
  qed
qed

lemma zfill_str_nat:
  "n < 10 ^ k \<Longrightarrow> 0 < k \<Longrightarrow> zfill k (str_nat n) = digits k n"
proof (induction k arbitrary: n)
  case 0
  then show ?case by simp
next
  case (Suc k)
  show ?case
  proof (cases "n < 10")
    case True
    then show ?thesis
      by (simp add: str_nat.simps zfill_def digits_zero)
  next
    case False
    then have k: "0 < k" using Suc.prems by (cases k) auto
    have lt: "n div 10 < 10 ^ k" using Suc.prems by (simp add: less_mult_imp_div_less mult.commute)
    have len: "length (str_nat (n div 10)) \<le> k" by (rule length_str_nat[OF lt k])
    have "zfill (Suc k) (str_nat n)
        = zfill k (str_nat (n div 10)) @ [digit_char (n mod 10)]"
      using False len by (simp add: str_nat.simps[of n] zfill_def Suc_diff_le)
    then show ?thesis using Suc.IH[OF lt k] by simp
  qed
qed

lemma digits_less:
  "n < m \<Longrightarrow> m < 10 ^ k \<Longrightarrow> digits k n < digits k m"
proof (induction k arbitrary: n m)
  case 0
  then show ?case by simp
next
  case (Suc k)
  have le: "n div 10 \<le> m div 10" using Suc.prems by (simp add: div_le_mono)
  show ?case
  proof (cases "n div 10 < m div 10")
    case True
    have "m div 10 < 10 ^ k" using Suc.prems by (simp add: less_mult_imp_div_less mult.commute)
    then have "digits k (n div 10) < digits k (m div 10)" using Suc.IH True by simp
    then show ?thesis by (simp add: lex_append_same_length length_digits)
  next
    case False
    then have eq: "n div 10 = m div 10" using le by simp
    then have "n mod 10 < m mod 10" using Suc.prems(1)
      by (metis add_less_cancel_left mult_div_mod_eq)
    then have "[digit_char (n mod 10)] < [digit_char (m mod 10)]"
      by (simp add: digit_char_less)
    then show ?thesis using eq by (simp add: lex_prefix_cancel)
  qed
qed

lemma format_05d_digits:
  "0 \<le> i \<Longrightarrow> i < 100000 \<Longrightarrow> format_05d i = digits 5 (nat i)"
proof -
  assume h: "0 \<le> i" "i < 100000"
  have "nat i < 10 ^ 5" using h by simp
  then have "zfill 5 (str_nat (nat i)) = digits 5 (nat i)" by (intro zfill_str_nat) auto
  then show ?thesis using h by (simp add: format_05d_def)
qed

lemma format_05d_less:
  "0 \<le> i \<Longrightarrow> i < j \<Longrightarrow> j < 100000 \<Longrightarrow> format_05d i < format_05d j"
proof -
  assume h: "0 \<le> i" "i < j" "j < 100000"
  have "digits 5 (nat i) < digits 5 (nat j)" using h by (intro digits_less) auto
  then show ?thesis using h by (simp add: format_05d_digits)
qed

lemma path_join_part:
  "path_join tmpdir (''part_'' @ s) = (if tmpdir = [] \<or> last tmpdir = CHR ''/'' then tmpdir else tmpdir @ ''/'') @ ''part_'' @ s"
  by (simp add: path_join_def)

lemma part_path_less:
  "0 \<le> i \<Longrightarrow> i < j \<Longrightarrow> j < 100000 \<Longrightarrow> part_path tmpdir i < part_path tmpdir j"
proof -
  assume h: "0 \<le> i" "i < j" "j < 100000"
  have l: "length (format_05d i) = length (format_05d j)"
    using h by (simp add: format_05d_digits length_digits)
  have "format_05d i @ ''.pdf'' < format_05d j @ ''.pdf''"
    by (rule lex_append_same_length[OF l format_05d_less[OF h]])
  then show ?thesis
    unfolding part_path_def path_join_part by (simp only: lex_prefix_cancel)
qed

lemma decimal_value_snoc: "decimal_value (s @ [c]) = 10 * decimal_value s + digit_value c"
  by (simp add: decimal_value_def)

lemma decimal_value_str_nat: "decimal_value (str_nat n) = n"
proof (induction n rule: str_nat.induct)
  case (1 n)
  show ?case
  proof (cases "n < 10")
    case True
    then show ?thesis by (simp add: str_nat.simps decimal_value_def digit_value_digit_char)
  next
    case False
    then show ?thesis
      using 1 by (simp add: str_nat.simps[of n] decimal_value_snoc digit_value_digit_char)
  qed
qed

lemma decimal_value_zeros: "decimal_value (replicate k CHR ''0'' @ s) = decimal_value s"
proof -
  have "foldl (\<lambda>a c. 10 * a + digit_value c) 0 (replicate k CHR ''0'') = 0"
    by (induction k) (auto simp: digit_value_def)
  then show ?thesis by (simp add: decimal_value_def)
qed

lemma decimal_value_format_05d: "0 \<le> i \<Longrightarrow> decimal_value (format_05d i) = nat i"
  by (simp add: format_05d_def zfill_def decimal_value_zeros decimal_value_str_nat)

lemma format_05d_inj: "0 \<le> i \<Longrightarrow> 0 \<le> j \<Longrightarrow> format_05d i = format_05d j \<Longrightarrow> i = j"
  by (metis decimal_value_format_05d int_nat_eq)

lemma part_path_inj:
  "0 \<le> i \<Longrightarrow> 0 \<le> j \<Longrightarrow> part_path tmpdir i = part_path tmpdir j \<Longrightarrow> i = j"
  unfolding part_path_def path_join_part by (auto dest: format_05d_inj)

lemma part_path_wide: "part_path ''/tmp/pdfkiwi_x'' 100000 < part_path ''/tmp/pdfkiwi_x'' 99999"
  by (simp add: part_path_def path_join_def format_05d_def zfill_def str_nat.simps digit_char_def)

lemma runs_append: "runs (a @ b) = runs a @ runs b"
  by (simp add: runs_def)

lemma runs_map_Run: "runs (map Run cs) = cs"
  by (induction cs) (auto simp: runs_def)

lemma runs_simps:
  "runs [] = []"
  "runs (Run c # evs) = c # runs evs"
  "runs (Which s # evs) = runs evs"
  "runs (SaveDialog # evs) = runs evs"
  "runs (MkTemp s # evs) = runs evs"
  "runs (Cleanup s # evs) = runs evs"
  "runs (InfoBox a b # evs) = runs evs"
  "runs (ErrorBox a b # evs) = runs evs"
  by (simp_all add: runs_def)

lemma part_files_of_Suc:
  "part_files_of tmpdir idx (Suc n) = part_path tmpdir idx # part_files_of tmpdir (idx + 1) n"
proof -
  have "[idx..idx + int (Suc n) - 1] = idx # [idx + 1..idx + 1 + int n - 1]"
    by (subst upto_rec1) (auto simp: algebra_simps)
  then show ?thesis by (simp add: part_files_of_def)
qed

lemma part_files_of_0: "part_files_of tmpdir idx 0 = []"
  by (simp add: part_files_of_def)

lemma length_part_files_of: "length (part_files_of tmpdir idx n) = n"
  by (simp add: part_files_of_def)

lemma separate_cmds_Cons:
  "separate_cmds tmpdir idx (pr # prs)
     = separate_cmd pr (part_path tmpdir idx) # separate_cmds tmpdir (idx + 1) prs"
  by (simp add: separate_cmds_def part_files_of_Suc)

lemma separate_cmds_Nil: "separate_cmds tmpdir idx [] = []"
  by (simp add: separate_cmds_def)

lemma length_separate_cmds: "length (separate_cmds tmpdir idx pages) = length pages"
  by (simp add: separate_cmds_def length_part_files_of)

lemma subprocess_run_trace:
  "subprocess_run env cmd w = (r, w') \<Longrightarrow> trace w' = trace w @ [Run cmd]"
  by (auto simp: subprocess_run_def log_event_def split: prod.splits)

lemma subprocess_run_eq:
  "run env cmd (files w) = (r, fs) \<Longrightarrow>
   subprocess_run env cmd w = (r, \<lparr>files = fs, trace = trace w @ [Run cmd]\<rparr>)"
  by (simp add: subprocess_run_def log_event_def)

lemma extract_pages_ok:
  "extract_pages env tmpdir idx pages pf w = (Inr pf', w') \<Longrightarrow>
   pf' = pf @ part_files_of tmpdir idx (length pages)
   \<and> trace w' = trace w @ map Run (separate_cmds tmpdir idx pages)"
proof (induction pages arbitrary: idx pf w)
  case Nil
  then show ?case by (simp add: part_files_of_0 separate_cmds_Nil)
next
  case (Cons pr prs)
  let ?sp = "part_path tmpdir idx"
  obtain r w1 where r: "subprocess_run env (separate_cmd pr ?sp) w = (r, w1)"
    by (cases "subprocess_run env (separate_cmd pr ?sp) w")
  have t1: "trace w1 = trace w @ [Run (separate_cmd pr ?sp)]"
    by (rule subprocess_run_trace[OF r])
  from Cons.prems r obtain rc err where
    ex: "r = Exited rc err" and
    rest: "extract_pages env tmpdir (idx + 1) prs (pf @ [?sp]) w1 = (Inr pf', w')"
    by (cases r) (auto simp: Let_def split: if_splits)
  have "pf' = (pf @ [?sp]) @ part_files_of tmpdir (idx + 1) (length prs)
      \<and> trace w' = trace w1 @ map Run (separate_cmds tmpdir (idx + 1) prs)"
    by (rule Cons.IH[OF rest])
  then show ?case using t1 by (simp add: part_files_of_Suc separate_cmds_Cons)
qed

lemma extract_pages_prefix:
  "extract_pages env tmpdir idx pages pf w = (Inl msg, w') \<Longrightarrow>
   \<exists>k. 1 \<le> k \<and> k \<le> length pages
     \<and> trace w' = trace w @ map Run (take k (separate_cmds tmpdir idx pages))"
proof (induction pages arbitrary: idx pf w)
  case Nil
  then show ?case by simp
next
  case (Cons pr prs)
  let ?sp = "part_path tmpdir idx"
  obtain r w1 where r: "subprocess_run env (separate_cmd pr ?sp) w = (r, w1)"
    by (cases "subprocess_run env (separate_cmd pr ?sp) w")
  have t1: "trace w1 = trace w @ [Run (separate_cmd pr ?sp)]"
    by (rule subprocess_run_trace[OF r])
  show ?case
  proof (cases "extract_pages env tmpdir (idx + 1) prs (pf @ [?sp]) w1 = (Inl msg, w')")
    case True
    then obtain k where k: "1 \<le> k" "k \<le> length prs"
      "trace w' = trace w1 @ map Run (take k (separate_cmds tmpdir (idx + 1) prs))"
      using Cons.IH by blast
    have "trace w' = trace w @ map Run (take (Suc k) (separate_cmds tmpdir idx (pr # prs)))"
      using k t1 by (simp add: separate_cmds_Cons)
    moreover have "1 \<le> Suc k" "Suc k \<le> length (pr # prs)" using k by auto
    ultimately show ?thesis by blast
  next
    case False
    then have "w' = w1"
      using Cons.prems r by (cases r) (auto simp: Let_def split: if_splits)
    then have "trace w' = trace w @ map Run (take 1 (separate_cmds tmpdir idx (pr # prs)))"
      using t1 by (simp add: separate_cmds_Cons)
    moreover have "(1::nat) \<le> length (pr # prs)" by simp
    ultimately show ?thesis by blast
  qed
qed

lemma extract_pages_append:
  "extract_pages env tmpdir idx before pf w = (Inr pf', w') \<Longrightarrow>
   extract_pages env tmpdir idx (before @ rest) pf w
     = extract_pages env tmpdir (idx + int (length before)) rest pf' w'"
proof (induction before arbitrary: idx pf w)
  case Nil
  then show ?case by simp
next
  case (Cons pr prs)
  let ?sp = "part_path tmpdir idx"
  obtain r w1 where r: "subprocess_run env (separate_cmd pr ?sp) w = (r, w1)"
    by (cases "subprocess_run env (separate_cmd pr ?sp) w")
  from Cons.prems r obtain rc err where
    ex: "r = Exited rc err" "rc = 0" "path_exists ?sp w1" and
    rest: "extract_pages env tmpdir (idx + 1) prs (pf @ [?sp]) w1 = (Inr pf', w')"
    by (cases r) (auto simp: Let_def split: if_splits)
  have "extract_pages env tmpdir (idx + 1) (prs @ rest) (pf @ [?sp]) w1
      = extract_pages env tmpdir (idx + 1 + int (length prs)) rest pf' w'"
    by (rule Cons.IH[OF rest])
  moreover have "idx + 1 + int (length prs) = idx + int (length (pr # prs))" by simp
  ultimately show ?case using r ex by (simp add: Let_def)
qed

lemma under_dir_part_path: "under_dir tmpdir (part_path tmpdir idx)"
  unfolding part_path_def path_join_part by (simp add: under_dir_def Let_def)

lemma last_separate_cmd: "last (separate_cmd pr sp) = sp"
  by (simp add: separate_cmd_def)

lemma extract_pages_frame:
  assumes frame: "\<And>cmd fs p. p \<noteq> last cmd \<Longrightarrow> snd (run env cmd fs) p = fs p"
  shows "extract_pages env tmpdir idx pages pf w = (res, w') \<Longrightarrow> \<not> under_dir tmpdir p \<Longrightarrow>
         files w' p = files w p"
proof (induction pages arbitrary: idx pf w)
  case Nil
  then show ?case by simp
next
  case (Cons pr prs)
  let ?sp = "part_path tmpdir idx"
  obtain r fs where rn: "run env (separate_cmd pr ?sp) (files w) = (r, fs)"
    by (cases "run env (separate_cmd pr ?sp) (files w)")
  define w1 where "w1 = \<lparr>files = fs, trace = trace w @ [Run (separate_cmd pr ?sp)]\<rparr>"
  have r: "subprocess_run env (separate_cmd pr ?sp) w = (r, w1)"
    using subprocess_run_eq[OF rn] by (simp add: w1_def)
  have "p \<noteq> last (separate_cmd pr ?sp)"
    using Cons.prems(2) under_dir_part_path[of tmpdir idx] by (auto simp: last_separate_cmd)
  then have "snd (run env (separate_cmd pr ?sp) (files w)) p = files w p" by (rule frame)
  then have f1: "files w1 p = files w p" using rn by (simp add: w1_def)
  show ?case
  proof (cases "extract_pages env tmpdir (idx + 1) prs (pf @ [?sp]) w1 = (res, w')")
    case True
    then show ?thesis using Cons.IH Cons.prems(2) f1 by metis
  next
    case False
    then have "w' = w1"
      using Cons.prems(1) r by (cases r) (auto simp: Let_def split: if_splits)
    then show ?thesis using f1 by simp
  qed
qed

lemma create_pdf_started:
  assumes "pages \<noteq> []" "which env ''pdfseparate''" "which env ''pdfunite''"
    "save_file_name env = out" "out \<noteq> []" "mkdtemp env = Inr tmpdir"
  shows "create_pdf env pages w =
     (case export_in_tmpdir env tmpdir pages out (started tmpdir w) of
        (Inr u, w3) \<Rightarrow> info_box ''Done'' (''Created:'' @ [newline] @ out) (cleanup tmpdir w3)
      | (Inl msg, w3) \<Rightarrow> error_box ''Export error'' msg (cleanup tmpdir w3))"
proof -
  have tm: "tools_missing env w
      = (False, w\<lparr>trace := trace w @ [Which ''pdfseparate'', Which ''pdfunite'']\<rparr>)"
    using assms(2,3) by (simp add: tools_missing_def command_exists_def log_event_def)
  have st: "log_event (MkTemp tmpdir) (log_event SaveDialog
      (w\<lparr>trace := trace w @ [Which ''pdfseparate'', Which ''pdfunite'']\<rparr>)) = started tmpdir w"
    by (simp add: log_event_def started_def)
  obtain res w3 where e: "export_in_tmpdir env tmpdir pages out (started tmpdir w) = (res, w3)"
    by (cases "export_in_tmpdir env tmpdir pages out (started tmpdir w)")
  have "with_temporary_directory env pages out
      (log_event SaveDialog (w\<lparr>trace := trace w @ [Which ''pdfseparate'', Which ''pdfunite'']\<rparr>))
      = (res, cleanup tmpdir w3)"
    using assms(6) e by (simp add: with_temporary_directory_def st)
  then show ?thesis
    using assms(1,4,5) tm e by (cases res) (simp_all add: create_pdf_def Let_def)
qed

text \<open>The definitions that evaluating the export on a concrete input unfolds.\<close>

lemmas eval_defs = create_pdf_def tools_missing_def command_exists_def log_event_def
  with_temporary_directory_def export_in_tmpdir_def subprocess_run_def
  separate_cmd_def part_path_def path_join_def format_05d_def zfill_def str_nat.simps
  digit_char_def str_int_def path_exists_def unite_cmd_def cleanup_def error_box_def
  info_box_def unite_failed_def separate_failed_def basename_def under_dir_def
  example_env_def example_run_def example_world_def page_of_def started_def
  eval_nat_numeral Let_def


lemma part_files_of_nth:
  "k < n \<Longrightarrow> part_files_of tmpdir idx n ! k = part_path tmpdir (idx + int k)"
  by (simp add: part_files_of_def)

lemma sorted_part_files_of:
  assumes "0 \<le> idx" "idx + int n \<le> 100000"
  shows "sorted_wrt (<) (part_files_of tmpdir idx n)"
proof -
  have "\<forall>i j. i < j \<and> j < n \<longrightarrow> part_files_of tmpdir idx n ! i < part_files_of tmpdir idx n ! j"
  proof (intro allI impI)
    fix i j assume h: "i < j \<and> j < n"
    have "part_path tmpdir (idx + int i) < part_path tmpdir (idx + int j)"
      by (rule part_path_less) (use h assms in auto)
    then show "part_files_of tmpdir idx n ! i < part_files_of tmpdir idx n ! j"
      using h by (simp add: part_files_of_nth)
  qed
  then show ?thesis by (simp add: sorted_wrt_iff_nth_less length_part_files_of)
qed

lemma distinct_part_files_of:
  assumes "0 \<le> idx"
  shows "distinct (part_files_of tmpdir idx n)"
proof -
  have "\<forall>i j. i < n \<and> j < n \<and> i \<noteq> j
      \<longrightarrow> part_files_of tmpdir idx n ! i \<noteq> part_files_of tmpdir idx n ! j"
  proof (intro allI impI)
    fix i j assume h: "i < n \<and> j < n \<and> i \<noteq> j"
    have "part_path tmpdir (idx + int i) \<noteq> part_path tmpdir (idx + int j)"
      using part_path_inj[of "idx + int i" "idx + int j" tmpdir] h assms by auto
    then show "part_files_of tmpdir idx n ! i \<noteq> part_files_of tmpdir idx n ! j"
      using h by (simp add: part_files_of_nth)
  qed
  then show ?thesis by (simp add: distinct_conv_nth length_part_files_of)
qed

lemma extract_pages_succeeds:
  assumes good: "\<And>cmd fs. \<exists>err fs'. run env cmd fs = (Exited 0 err, fs') \<and> fs' (last cmd) \<noteq> None"
  shows "\<exists>pf' w'. extract_pages env tmpdir idx pages pf w = (Inr pf', w')"
proof (induction pages arbitrary: idx pf w)
  case Nil
  then show ?case by simp
next
  case (Cons pr prs)
  let ?sp = "part_path tmpdir idx"
  obtain err fs where rn: "run env (separate_cmd pr ?sp) (files w) = (Exited 0 err, fs)"
    and ex: "fs (last (separate_cmd pr ?sp)) \<noteq> None"
    using good by blast
  define w1 where "w1 = \<lparr>files = fs, trace = trace w @ [Run (separate_cmd pr ?sp)]\<rparr>"
  have r: "subprocess_run env (separate_cmd pr ?sp) w = (Exited 0 err, w1)"
    using subprocess_run_eq[OF rn] by (simp add: w1_def)
  have pe: "path_exists ?sp w1" using ex by (simp add: path_exists_def w1_def last_separate_cmd)
  obtain pf' w' where "extract_pages env tmpdir (idx + 1) prs (pf @ [?sp]) w1 = (Inr pf', w')"
    using Cons.IH by blast
  then show ?case using r pe by (simp add: Let_def)
qed

lemma trace_boxes:
  "trace (info_box a b (cleanup d w)) = trace w @ [Cleanup d, InfoBox a b]"
  "trace (error_box a b (cleanup d w)) = trace w @ [Cleanup d, ErrorBox a b]"
  "files (info_box a b (cleanup d w)) = (\<lambda>p. if under_dir d p then None else files w p)"
  "files (error_box a b (cleanup d w)) = (\<lambda>p. if under_dir d p then None else files w p)"
  by (simp_all add: info_box_def error_box_def cleanup_def log_event_def)

text \<open>The three ways in which an export that has created its directory ends.\<close>

lemma export_outcomes:
  fixes env :: "'c env" and w :: "'c world"
  assumes pre: "pages \<noteq> []" "which env ''pdfseparate''" "which env ''pdfunite''"
    "save_file_name env = out" "out \<noteq> []" "mkdtemp env = Inr tmpdir"
  defines "w' \<equiv> create_pdf env pages w"
    and "cmds \<equiv> separate_cmds tmpdir 1 pages @ [unite_cmd (part_files_of tmpdir 1 (length pages)) out]"
  shows "(\<exists>k msg. 1 \<le> k \<and> k \<le> length pages + 1
            \<and> trace w' = trace (started tmpdir w) @ map Run (take k cmds)
                 @ [Cleanup tmpdir, ErrorBox ''Export error'' msg])
       \<or> trace w' = trace (started tmpdir w) @ map Run cmds
                 @ [Cleanup tmpdir, InfoBox ''Done'' (''Created:'' @ [newline] @ out)]"
proof -
  let ?w0 = "started tmpdir w"
  let ?pf = "part_files_of tmpdir 1 (length pages)"
  have cp: "w' = (case export_in_tmpdir env tmpdir pages out ?w0 of
        (Inr u, w3) \<Rightarrow> info_box ''Done'' (''Created:'' @ [newline] @ out) (cleanup tmpdir w3)
      | (Inl msg, w3) \<Rightarrow> error_box ''Export error'' msg (cleanup tmpdir w3))"
    unfolding w'_def by (rule create_pdf_started[OF pre])
  have lc: "length (separate_cmds tmpdir 1 pages) = length pages"
    by (rule length_separate_cmds)
  obtain res w1 where ep: "extract_pages env tmpdir 1 pages [] ?w0 = (res, w1)"
    by (cases "extract_pages env tmpdir 1 pages [] ?w0")
  show ?thesis
  proof (cases res)
    case (Inl msg)
    obtain k where k: "1 \<le> k" "k \<le> length pages"
      "trace w1 = trace ?w0 @ map Run (take k (separate_cmds tmpdir 1 pages))"
      using extract_pages_prefix ep Inl by blast
    have tk: "take k cmds = take k (separate_cmds tmpdir 1 pages)"
      using k lc by (simp add: cmds_def)
    have "w' = error_box ''Export error'' msg (cleanup tmpdir w1)"
      using cp ep Inl by (simp add: export_in_tmpdir_def)
    then have "trace w' = trace ?w0 @ map Run (take k cmds)
        @ [Cleanup tmpdir, ErrorBox ''Export error'' msg]"
      using k tk by (simp add: trace_boxes)
    moreover have "k \<le> length pages + 1" using k by simp
    ultimately show ?thesis using k(1) by blast
  next
    case (Inr pf)
    have ok: "pf = ?pf" "trace w1 = trace ?w0 @ map Run (separate_cmds tmpdir 1 pages)"
      using extract_pages_ok[of env tmpdir 1 pages "[]" ?w0 pf w1] ep Inr by auto
    obtain r w2 where r: "subprocess_run env (unite_cmd ?pf out) w1 = (r, w2)"
      by (cases "subprocess_run env (unite_cmd ?pf out) w1")
    have t2: "trace w2 = trace ?w0 @ map Run cmds"
      using subprocess_run_trace[OF r] ok by (simp add: cmds_def)
    have full: "take (length pages + 1) cmds = cmds" using lc by (simp add: cmds_def)
    show ?thesis
    proof (cases r)
      case (Raised msg)
      have "w' = error_box ''Export error'' msg (cleanup tmpdir w2)"
        using cp ep Inr ok r Raised by (simp add: export_in_tmpdir_def)
      then have "trace w' = trace ?w0 @ map Run (take (length pages + 1) cmds)
          @ [Cleanup tmpdir, ErrorBox ''Export error'' msg]"
        using t2 full by (simp add: trace_boxes)
      then show ?thesis by (metis le_add2 le_refl)
    next
      case (Exited rc err)
      show ?thesis
      proof (cases "rc = 0")
        case True
        have "w' = info_box ''Done'' (''Created:'' @ [newline] @ out) (cleanup tmpdir w2)"
          using cp ep Inr ok r Exited True by (simp add: export_in_tmpdir_def)
        then show ?thesis using t2 by (simp add: trace_boxes)
      next
        case False
        have "w' = error_box ''Export error'' (unite_failed err) (cleanup tmpdir w2)"
          using cp ep Inr ok r Exited False by (simp add: export_in_tmpdir_def)
        then have "trace w' = trace ?w0 @ map Run (take (length pages + 1) cmds)
            @ [Cleanup tmpdir, ErrorBox ''Export error'' (unite_failed err)]"
          using t2 full by (simp add: trace_boxes)
        then show ?thesis by (metis le_add2 le_refl)
      qed
    qed
  qed
qed

lemma runs_started: "runs (trace (started tmpdir w)) = runs (trace w)"
  by (simp add: started_def runs_append runs_simps)

lemma separate_cmds_snoc:
  "separate_cmds tmpdir idx (before @ [pr])
     = separate_cmds tmpdir idx before
       @ [separate_cmd pr (part_path tmpdir (idx + int (length before)))]"
proof (induction before arbitrary: idx)
  case Nil
  then show ?case by (simp add: separate_cmds_Cons separate_cmds_Nil)
next
  case (Cons a before)
  show ?case using Cons.IH[of "idx + 1"] by (simp add: separate_cmds_Cons add.assoc)
qed

lemma export_succeeds:
  assumes pre: "pages \<noteq> []" "which env ''pdfseparate''" "which env ''pdfunite''"
    "save_file_name env = out" "out \<noteq> []" "mkdtemp env = Inr tmpdir"
    and good: "\<forall>cmd fs. \<exists>err fs'. run env cmd fs = (Exited 0 err, fs') \<and> fs' (last cmd) \<noteq> None"
  shows "last (trace (create_pdf env pages w)) = InfoBox ''Done'' (''Created:'' @ [newline] @ out)"
proof -
  let ?w0 = "started tmpdir w"
  obtain pf w1 where ep: "extract_pages env tmpdir 1 pages [] ?w0 = (Inr pf, w1)"
    using extract_pages_succeeds[of env tmpdir 1 pages "[]" ?w0] good by blast
  obtain err fs where rn: "run env (unite_cmd pf out) (files w1) = (Exited 0 err, fs)"
    using good by blast
  have "export_in_tmpdir env tmpdir pages out ?w0
      = (Inr (), \<lparr>files = fs, trace = trace w1 @ [Run (unite_cmd pf out)]\<rparr>)"
    using ep subprocess_run_eq[OF rn] by (simp add: export_in_tmpdir_def)
  then show ?thesis
    by (simp add: create_pdf_started[OF pre] trace_boxes)
qed

lemma no_temp_left:
  assumes "mkdtemp env = Inr tmpdir" and "\<forall>p. under_dir tmpdir p \<longrightarrow> files w p = None"
    and "under_dir tmpdir p"
  shows "files (create_pdf env pages w) p = None"
proof -
  have keep: "\<And>e v. files (log_event e v) = files v" by (simp add: log_event_def)
  obtain m w1 where tm: "tools_missing env w = (m, w1)" by (cases "tools_missing env w")
  have f1: "files w1 = files w"
    using tm by (auto simp: tools_missing_def command_exists_def keep split: if_splits)
  show ?thesis
  proof (cases "pages = [] \<or> m \<or> save_file_name env = []")
    case True
    then show ?thesis
      using tm f1 assms(2,3)
      by (auto simp: create_pdf_def info_box_def error_box_def keep Let_def split: bool.splits)
  next
    case False
    let ?w2 = "log_event SaveDialog w1"
    obtain res w3 where e: "export_in_tmpdir env tmpdir pages (save_file_name env)
        (log_event (MkTemp tmpdir) ?w2) = (res, w3)"
      by (cases "export_in_tmpdir env tmpdir pages (save_file_name env)
        (log_event (MkTemp tmpdir) ?w2)")
    have wt: "with_temporary_directory env pages (save_file_name env) ?w2
        = (res, cleanup tmpdir w3)"
      using assms(1) e by (simp add: with_temporary_directory_def)
    have "files (cleanup tmpdir w3) p = None" using assms(3) by (simp add: cleanup_def)
    then show ?thesis
      using False tm wt
      by (cases res) (simp_all add: create_pdf_def info_box_def error_box_def keep Let_def)
  qed
qed

section \<open>Claims about the export\<close>

text \<open>
  C8. With no page in the arrangement, \<open>create_pdf\<close> shows the box "Nothing to export"
  and returns: the trace gains that box and nothing else (no look-up of a tool, no
  dialog, no temporary directory, no process), and no file changes.
\<close>

theorem C8_empty_export:
  "create_pdf env [] w = w\<lparr>trace := trace w @ [InfoBox ''Nothing to export'' ''Add pages first.'']\<rparr>
   \<and> files (create_pdf env [] w) = files w
   \<and> runs (trace (create_pdf env [] w)) = runs (trace w)"
proof -
  have c: "create_pdf env [] w
      = w\<lparr>trace := trace w @ [InfoBox ''Nothing to export'' ''Add pages first.'']\<rparr>"
    by (simp add: create_pdf_def info_box_def log_event_def)
  have f: "files (create_pdf env [] w) = files w"
    unfolding c by simp
  have "runs (trace (create_pdf env [] w))
      = runs (trace w) @ runs [InfoBox ''Nothing to export'' ''Add pages first.'']"
    unfolding c by (simp add: runs_append)
  then have r: "runs (trace (create_pdf env [] w)) = runs (trace w)"
    by (simp add: runs_simps)
  show ?thesis using c f r by simp
qed

text \<open>
  C7, as the claim states it, fails for long sequences: the counter is padded to five
  digits only. Exporting 100000 pages with tools that succeed runs the merge over the
  100000 temporary files, of which the last sorts before the one before it, so that the
  list is not in lexical order.
\<close>

theorem C7_lexical_order_counterexample:
  "runs (trace (create_pdf (example_env None 0) (replicate 100000 (page_of 0)) example_world))
       ! 100000
     = ''pdfunite'' # part_files_of ''/tmp/pdfkiwi_x'' 1 100000 @ [''/home/u/out.pdf'']
   \<and> part_files_of ''/tmp/pdfkiwi_x'' 1 100000 ! 99998 = ''/tmp/pdfkiwi_x/part_99999.pdf''
   \<and> part_files_of ''/tmp/pdfkiwi_x'' 1 100000 ! 99999 = ''/tmp/pdfkiwi_x/part_100000.pdf''
   \<and> ''/tmp/pdfkiwi_x/part_100000.pdf'' < ''/tmp/pdfkiwi_x/part_99999.pdf''
   \<and> \<not> sorted_wrt (<) (part_files_of ''/tmp/pdfkiwi_x'' 1 100000)"
proof -
  let ?pf = "part_files_of ''/tmp/pdfkiwi_x'' 1 100000"
  have a: "?pf ! 99998 = ''/tmp/pdfkiwi_x/part_99999.pdf''"
    by (simp add: part_files_of_nth part_path_def path_join_def format_05d_def zfill_def
        str_nat.simps digit_char_def)
  have b: "?pf ! 99999 = ''/tmp/pdfkiwi_x/part_100000.pdf''"
    by (simp add: part_files_of_nth part_path_def path_join_def format_05d_def zfill_def
        str_nat.simps digit_char_def)
  have c: "''/tmp/pdfkiwi_x/part_100000.pdf'' < ''/tmp/pdfkiwi_x/part_99999.pdf''" by simp
  have "\<not> ?pf ! 99998 < ?pf ! 99999" using a b c by (simp only: not_less_iff_gr_or_eq) simp
  moreover have "(99998::nat) < 99999" "(99999::nat) < length ?pf"
    by (simp_all add: length_part_files_of)
  ultimately have d: "\<not> sorted_wrt (<) ?pf"
    unfolding sorted_wrt_iff_nth_less by blast
  let ?env = "example_env None 0 :: string env"
  let ?pages = "replicate 100000 (page_of 0)"
  let ?out = "''/home/u/out.pdf''" and ?tmp = "''/tmp/pdfkiwi_x''"
  let ?w' = "create_pdf ?env ?pages example_world"
  let ?cmds = "separate_cmds ?tmp 1 ?pages @ [unite_cmd (part_files_of ?tmp 1 (length ?pages)) ?out]"
  have pre: "?pages \<noteq> []" "which ?env ''pdfseparate''" "which ?env ''pdfunite''"
    "save_file_name ?env = ?out" "?out \<noteq> []" "mkdtemp ?env = Inr ?tmp"
    by (simp_all add: example_env_def)
  have good: "\<forall>cmd fs. \<exists>err fs'. run ?env cmd fs = (Exited 0 err, fs') \<and> fs' (last cmd) \<noteq> None"
    by (simp add: example_env_def example_run_def)
  have dn: "last (trace ?w') = InfoBox ''Done'' (''Created:'' @ [newline] @ ?out)"
    by (rule export_succeeds[OF pre good])
  have "\<not> (\<exists>k msg. trace ?w' = trace (started ?tmp example_world) @ map Run (take k ?cmds)
            @ [Cleanup ?tmp, ErrorBox ''Export error'' msg])"
  proof
    assume "\<exists>k msg. trace ?w' = trace (started ?tmp example_world) @ map Run (take k ?cmds)
            @ [Cleanup ?tmp, ErrorBox ''Export error'' msg]"
    then obtain k msg where "trace ?w' = (trace (started ?tmp example_world)
        @ map Run (take k ?cmds) @ [Cleanup ?tmp]) @ [ErrorBox ''Export error'' msg]" by auto
    then have "last (trace ?w') = ErrorBox ''Export error'' msg" by (simp only: last_snoc)
    then show False using dn by simp
  qed
  then have tr: "trace ?w' = trace (started ?tmp example_world) @ map Run ?cmds
      @ [Cleanup ?tmp, InfoBox ''Done'' (''Created:'' @ [newline] @ ?out)]"
    using export_outcomes[OF pre, of example_world] by blast
  have "runs (trace ?w') = runs (trace example_world) @ ?cmds"
    by (simp only: tr runs_append runs_started runs_map_Run runs_simps append_Nil2)
  then have rs: "runs (trace ?w') = ?cmds" by (simp add: example_world_def runs_simps)
  have "length (separate_cmds ?tmp 1 ?pages) = 100000"
    by (simp add: length_separate_cmds)
  then have x: "?cmds ! 100000 = unite_cmd (part_files_of ?tmp 1 (length ?pages)) ?out"
    by (metis nth_append_length)
  have lp: "length ?pages = 100000" by simp
  have e: "runs (trace ?w') ! 100000 = ''pdfunite'' # ?pf @ [?out]"
    using x unfolding rs lp unite_cmd_def .
  show ?thesis using a b c d e by blast
qed

text \<open>
  C7, amended. Once the tools are found, an output path is chosen and the temporary
  directory exists, the processes that the export runs are an initial part of: one
  extraction per page, in the order of the sequence, the k-th into the temporary file
  named with the counter k padded to five digits, and then the merge over those
  temporary files in that order, writing the output path. When the export reports
  success, it has run all of them and nothing else, and it does report success whenever
  every process succeeds and leaves its destination. The temporary files are pairwise
  distinct for every length of the sequence, and for up to 99999 pages their lexical
  order is the order of the sequence.
\<close>

theorem C7_export_sequence:
  assumes pre: "pages \<noteq> []" "which env ''pdfseparate''" "which env ''pdfunite''"
    "save_file_name env = out" "out \<noteq> []" "mkdtemp env = Inr tmpdir"
  shows "(\<exists>k. 1 \<le> k \<and> k \<le> length pages + 1
          \<and> runs (trace (create_pdf env pages w))
              = runs (trace w) @ take k (separate_cmds tmpdir 1 pages
                  @ [''pdfunite'' # part_files_of tmpdir 1 (length pages) @ [out]]))
    \<and> (last (trace (create_pdf env pages w)) = InfoBox ''Done'' (''Created:'' @ [newline] @ out)
        \<longrightarrow> trace (create_pdf env pages w)
              = trace w @ [Which ''pdfseparate'', Which ''pdfunite'', SaveDialog, MkTemp tmpdir]
                @ map Run (separate_cmds tmpdir 1 pages
                    @ [''pdfunite'' # part_files_of tmpdir 1 (length pages) @ [out]])
                @ [Cleanup tmpdir, InfoBox ''Done'' (''Created:'' @ [newline] @ out)])
    \<and> ((\<forall>cmd fs. \<exists>err fs'. run env cmd fs = (Exited 0 err, fs') \<and> fs' (last cmd) \<noteq> None)
        \<longrightarrow> last (trace (create_pdf env pages w)) = InfoBox ''Done'' (''Created:'' @ [newline] @ out))
    \<and> separate_cmds tmpdir 1 pages
        = map2 separate_cmd pages (part_files_of tmpdir 1 (length pages))
    \<and> length (part_files_of tmpdir 1 (length pages)) = length pages
    \<and> distinct (part_files_of tmpdir 1 (length pages))
    \<and> (length pages \<le> 99999 \<longrightarrow> sorted_wrt (<) (part_files_of tmpdir 1 (length pages)))"
proof -
  have seq: "(\<exists>k. 1 \<le> k \<and> k \<le> length pages + 1
          \<and> runs (trace (create_pdf env pages w))
              = runs (trace w) @ take k (separate_cmds tmpdir 1 pages
                  @ [unite_cmd (part_files_of tmpdir 1 (length pages)) out]))
    \<and> (last (trace (create_pdf env pages w)) = InfoBox ''Done'' (''Created:'' @ [newline] @ out)
        \<longrightarrow> trace (create_pdf env pages w)
              = trace w @ [Which ''pdfseparate'', Which ''pdfunite'', SaveDialog, MkTemp tmpdir]
                @ map Run (separate_cmds tmpdir 1 pages
                    @ [unite_cmd (part_files_of tmpdir 1 (length pages)) out])
                @ [Cleanup tmpdir, InfoBox ''Done'' (''Created:'' @ [newline] @ out)])
    \<and> ((\<forall>cmd fs. \<exists>err fs'. run env cmd fs = (Exited 0 err, fs') \<and> fs' (last cmd) \<noteq> None)
        \<longrightarrow> last (trace (create_pdf env pages w)) = InfoBox ''Done'' (''Created:'' @ [newline] @ out))
    \<and> separate_cmds tmpdir 1 pages
        = map2 separate_cmd pages (part_files_of tmpdir 1 (length pages))
    \<and> length (part_files_of tmpdir 1 (length pages)) = length pages
    \<and> distinct (part_files_of tmpdir 1 (length pages))
    \<and> (length pages \<le> 99999 \<longrightarrow> sorted_wrt (<) (part_files_of tmpdir 1 (length pages)))"
  proof (intro conjI impI)
    let ?cmds = "separate_cmds tmpdir 1 pages @ [unite_cmd (part_files_of tmpdir 1 (length pages)) out]"
    let ?w' = "create_pdf env pages w"
    let ?done = "InfoBox ''Done'' (''Created:'' @ [newline] @ out)"
    note oc = export_outcomes[OF pre, of w]
    have len: "length ?cmds = length pages + 1" by (simp add: length_separate_cmds)
    show "\<exists>k. 1 \<le> k \<and> k \<le> length pages + 1 \<and> runs (trace ?w') = runs (trace w) @ take k ?cmds"
    proof -
      from oc consider
        (err) k msg where "1 \<le> k" "k \<le> length pages + 1"
          "trace ?w' = trace (started tmpdir w) @ map Run (take k ?cmds)
              @ [Cleanup tmpdir, ErrorBox ''Export error'' msg]"
        | (ok) "trace ?w' = trace (started tmpdir w) @ map Run ?cmds @ [Cleanup tmpdir, ?done]"
        by blast
      then show ?thesis
      proof cases
        case err
        have "runs (trace ?w') = runs (trace w) @ take k ?cmds"
          by (simp only: err(3) runs_append runs_started runs_map_Run runs_simps append_Nil2)
        then show ?thesis using err(1,2) by blast
      next
        case ok
        have "runs (trace ?w') = runs (trace w) @ ?cmds"
          by (simp only: ok runs_append runs_started runs_map_Run runs_simps append_Nil2)
        then have "runs (trace ?w') = runs (trace w) @ take (length pages + 1) ?cmds"
          using len by simp
        then show ?thesis by (metis le_add2 le_refl)
      qed
    qed
    show "trace ?w' = trace w @ [Which ''pdfseparate'', Which ''pdfunite'', SaveDialog, MkTemp tmpdir]
        @ map Run ?cmds @ [Cleanup tmpdir, ?done]" if d: "last (trace ?w') = ?done"
    proof -
      have "\<not> (\<exists>k msg. trace ?w' = trace (started tmpdir w) @ map Run (take k ?cmds)
              @ [Cleanup tmpdir, ErrorBox ''Export error'' msg])"
      proof
        assume "\<exists>k msg. trace ?w' = trace (started tmpdir w) @ map Run (take k ?cmds)
              @ [Cleanup tmpdir, ErrorBox ''Export error'' msg]"
        then obtain k msg where "trace ?w' = (trace (started tmpdir w) @ map Run (take k ?cmds)
              @ [Cleanup tmpdir]) @ [ErrorBox ''Export error'' msg]" by auto
        then have "last (trace ?w') = ErrorBox ''Export error'' msg" by (simp only: last_snoc)
        then show False using d by simp
      qed
      then have "trace ?w' = trace (started tmpdir w) @ map Run ?cmds @ [Cleanup tmpdir, ?done]"
        using oc by blast
      then show ?thesis by (simp add: started_def)
    qed
    show "last (trace ?w') = ?done"
      if "\<forall>cmd fs. \<exists>err fs'. run env cmd fs = (Exited 0 err, fs') \<and> fs' (last cmd) \<noteq> None"
      by (rule export_succeeds[OF pre that])
    show "separate_cmds tmpdir 1 pages = map2 separate_cmd pages (part_files_of tmpdir 1 (length pages))"
      by (simp add: separate_cmds_def)
    show "length (part_files_of tmpdir 1 (length pages)) = length pages"
      by (rule length_part_files_of)
    show "distinct (part_files_of tmpdir 1 (length pages))"
      by (rule distinct_part_files_of) simp
    show "sorted_wrt (<) (part_files_of tmpdir 1 (length pages))" if "length pages \<le> 99999"
      by (rule sorted_part_files_of) (use that in auto)
  qed
  then show ?thesis unfolding unite_cmd_def .
qed

lemma example_run_frame:
  "p \<noteq> last cmd \<Longrightarrow> snd (example_run bad rc cmd fs) p = fs p"
  by (simp add: example_run_def)

theorem C7_export_sequence_witness:
  "trace (create_pdf (example_env None 0) [page_of 0, page_of 4] example_world) =
     [Which ''pdfseparate'', Which ''pdfunite'', SaveDialog, MkTemp ''/tmp/pdfkiwi_x'',
      Run [''pdfseparate'', ''-f'', ''1'', ''-l'', ''1'', ''/home/u/a.pdf'',
           ''/tmp/pdfkiwi_x/part_00001.pdf''],
      Run [''pdfseparate'', ''-f'', ''5'', ''-l'', ''5'', ''/home/u/a.pdf'',
           ''/tmp/pdfkiwi_x/part_00002.pdf''],
      Run [''pdfunite'', ''/tmp/pdfkiwi_x/part_00001.pdf'', ''/tmp/pdfkiwi_x/part_00002.pdf'',
           ''/home/u/out.pdf''],
      Cleanup ''/tmp/pdfkiwi_x'',
      InfoBox ''Done'' (''Created:'' @ [newline] @ ''/home/u/out.pdf'')]
   \<and> sorted_wrt (<) (part_files_of ''/tmp/pdfkiwi_x'' 1 2)
   \<and> part_files_of ''/tmp/pdfkiwi_x'' 1 2
       = [''/tmp/pdfkiwi_x/part_00001.pdf'', ''/tmp/pdfkiwi_x/part_00002.pdf'']"
proof -
  let ?env = "example_env None 0 :: string env"
  let ?pages = "[page_of 0, page_of 4]"
  let ?out = "''/home/u/out.pdf''" and ?tmp = "''/tmp/pdfkiwi_x''"
  have pre: "?pages \<noteq> []" "which ?env ''pdfseparate''" "which ?env ''pdfunite''"
    "save_file_name ?env = ?out" "?out \<noteq> []" "mkdtemp ?env = Inr ?tmp"
    by (simp_all add: example_env_def)
  note inst = C7_export_sequence [OF pre, of example_world]
  have dn: "last (trace (create_pdf ?env ?pages example_world))
      = InfoBox ''Done'' (''Created:'' @ [newline] @ ?out)"
    by (simp add: eval_defs)
  have pf: "part_files_of ?tmp 1 2 = [''/tmp/pdfkiwi_x/part_00001.pdf'', ''/tmp/pdfkiwi_x/part_00002.pdf'']"
    by (simp add: part_files_of_def upto_rec1 part_path_def path_join_def format_05d_def
        zfill_def str_nat.simps digit_char_def eval_nat_numeral)
  have cm: "separate_cmds ?tmp 1 ?pages =
     [[''pdfseparate'', ''-f'', ''1'', ''-l'', ''1'', ''/home/u/a.pdf'', ''/tmp/pdfkiwi_x/part_00001.pdf''],
      [''pdfseparate'', ''-f'', ''5'', ''-l'', ''5'', ''/home/u/a.pdf'', ''/tmp/pdfkiwi_x/part_00002.pdf'']]"
    by (simp add: separate_cmds_def part_files_of_def upto_rec1 part_path_def path_join_def
        format_05d_def zfill_def separate_cmd_def page_of_def str_int_def str_nat.simps
        digit_char_def eval_nat_numeral)
  have tr: "trace (create_pdf ?env ?pages example_world)
      = trace example_world @ [Which ''pdfseparate'', Which ''pdfunite'', SaveDialog, MkTemp ?tmp]
        @ map Run (separate_cmds ?tmp 1 ?pages
            @ [''pdfunite'' # part_files_of ?tmp 1 (length ?pages) @ [?out]])
        @ [Cleanup ?tmp, InfoBox ''Done'' (''Created:'' @ [newline] @ ?out)]"
    using inst dn by blast
  have so: "sorted_wrt (<) (part_files_of ?tmp 1 (length ?pages))"
    using inst by simp
  have l2: "length ?pages = 2" by simp
  show ?thesis
    using tr so unfolding l2 cm pf by (simp add: example_world_def)
qed

lemma export_stops_at:
  assumes pre: "which env ''pdfseparate''" "which env ''pdfunite''"
    "save_file_name env = out" "out \<noteq> []" "mkdtemp env = Inr tmpdir"
    and ok: "extract_pages env tmpdir 1 before [] (started tmpdir w) = (Inr pf, w3)"
    and rn: "run env (separate_cmd pr (part_path tmpdir (1 + int (length before)))) (files w3)
        = (r, fs4)"
    and stop: "extract_pages env tmpdir (1 + int (length before)) (pr # after) pf w3
        = (Inl text, \<lparr>files = fs4, trace = trace w3
            @ [Run (separate_cmd pr (part_path tmpdir (1 + int (length before))))]\<rparr>)"
  shows "trace (create_pdf env (before @ pr # after) w)
        = trace w @ [Which ''pdfseparate'', Which ''pdfunite'', SaveDialog, MkTemp tmpdir]
          @ map Run (separate_cmds tmpdir 1 (before @ [pr]))
          @ [Cleanup tmpdir, ErrorBox ''Export error'' text]"
    and "files (create_pdf env (before @ pr # after) w)
        = (\<lambda>p. if under_dir tmpdir p then None else fs4 p)"
    and "(\<forall>cmd fs p. p \<noteq> last cmd \<longrightarrow> snd (run env cmd fs) p = fs p) \<and> \<not> under_dir tmpdir out
        \<longrightarrow> files (create_pdf env (before @ pr # after) w) out = files w out"
proof -
  let ?pages = "before @ pr # after"
  let ?w0 = "started tmpdir w"
  let ?sp = "part_path tmpdir (1 + int (length before))"
  let ?cmd = "separate_cmd pr ?sp"
  define w4 where "w4 = \<lparr>files = fs4, trace = trace w3 @ [Run ?cmd]\<rparr>"
  have pre': "?pages \<noteq> []" "which env ''pdfseparate''" "which env ''pdfunite''"
    "save_file_name env = out" "out \<noteq> []" "mkdtemp env = Inr tmpdir"
    using pre by simp_all
  have "extract_pages env tmpdir 1 ?pages [] ?w0
      = extract_pages env tmpdir (1 + int (length before)) (pr # after) pf w3"
    by (rule extract_pages_append[OF ok])
  then have ep: "extract_pages env tmpdir 1 ?pages [] ?w0 = (Inl text, w4)"
    using stop by (simp add: w4_def)
  have cp: "create_pdf env ?pages w = error_box ''Export error'' text (cleanup tmpdir w4)"
    using ep by (simp add: create_pdf_started[OF pre'] export_in_tmpdir_def)
  have t3: "trace w3 = trace ?w0 @ map Run (separate_cmds tmpdir 1 before)"
    using extract_pages_ok[OF ok] by simp
  have f4: "files w4 = fs4" by (simp add: w4_def)
  show "trace (create_pdf env ?pages w)
        = trace w @ [Which ''pdfseparate'', Which ''pdfunite'', SaveDialog, MkTemp tmpdir]
          @ map Run (separate_cmds tmpdir 1 (before @ [pr]))
          @ [Cleanup tmpdir, ErrorBox ''Export error'' text]"
    by (simp add: cp trace_boxes w4_def t3 separate_cmds_snoc started_def)
  show "files (create_pdf env ?pages w) = (\<lambda>p. if under_dir tmpdir p then None else fs4 p)"
    by (simp add: cp trace_boxes f4 cong: if_cong)
  show "(\<forall>cmd fs p. p \<noteq> last cmd \<longrightarrow> snd (run env cmd fs) p = fs p) \<and> \<not> under_dir tmpdir out
        \<longrightarrow> files (create_pdf env ?pages w) out = files w out"
  proof
    assume fr: "(\<forall>cmd fs p. p \<noteq> last cmd \<longrightarrow> snd (run env cmd fs) p = fs p)
        \<and> \<not> under_dir tmpdir out"
    have f3: "files w3 out = files ?w0 out"
      by (rule extract_pages_frame[OF _ ok]) (use fr in auto)
    have "out \<noteq> last ?cmd"
      using fr under_dir_part_path[of tmpdir "1 + int (length before)"]
      by (auto simp: last_separate_cmd)
    then have "snd (run env ?cmd (files w3)) out = files w3 out" using fr by blast
    then have "fs4 out = files w3 out" using rn by simp
    then show "files (create_pdf env ?pages w) out = files w out"
      using f3 fr by (simp add: cp trace_boxes f4 started_def)
  qed
qed

text \<open>
  C5, as the claim states it, fails for one kind of failure: when running the extraction
  raises (the program cannot be executed), the export stops and removes the temporary
  directory, but the box shows only the text of the exception, which names neither the
  source document nor the page. Here the third of five extractions raises.
\<close>

theorem C5_raised_extraction_counterexample:
  "trace (create_pdf (raising_env ''/tmp/pdfkiwi_x/part_00003.pdf'')
      [page_of 0, page_of 1, page_of 7, page_of 3, page_of 4] example_world) =
     [Which ''pdfseparate'', Which ''pdfunite'', SaveDialog, MkTemp ''/tmp/pdfkiwi_x'',
      Run [''pdfseparate'', ''-f'', ''1'', ''-l'', ''1'', ''/home/u/a.pdf'',
           ''/tmp/pdfkiwi_x/part_00001.pdf''],
      Run [''pdfseparate'', ''-f'', ''2'', ''-l'', ''2'', ''/home/u/a.pdf'',
           ''/tmp/pdfkiwi_x/part_00002.pdf''],
      Run [''pdfseparate'', ''-f'', ''8'', ''-l'', ''8'', ''/home/u/a.pdf'',
           ''/tmp/pdfkiwi_x/part_00003.pdf''],
      Cleanup ''/tmp/pdfkiwi_x'',
      ErrorBox ''Export error'' ''[Errno 8] Exec format error: pdfseparate'']"
  by (simp add: eval_defs raising_env_def raising_run_def)

text \<open>
  C5, amended. When the extractions of the pages before some page succeeded and the
  extraction of that page completes with a failure (a return code other than 0, or no
  file at its destination), the export stops there: it has run the extractions up to
  the failing one and no merge, it removes the temporary directory and shows the box
  "Export error" with the text "pdfseparate failed for", the base name of the source
  document, the page number (the page index plus one) and, on the next line, the
  standard error output of the tool. When running that extraction raises instead, the
  export stops and cleans up in the same way and the box shows the text of the
  exception alone. In both cases, if a process changes no file but its destination and
  the output path is not inside the temporary directory, the output path holds what it
  held before (nothing, if it did not exist). And however the export ends, no file is
  left in the temporary directory, given that none was there before.
\<close>

theorem C5_extract_failure_aborts:
  "(which env ''pdfseparate'' \<and> which env ''pdfunite'' \<and> save_file_name env = out \<and> out \<noteq> []
      \<and> mkdtemp env = Inr tmpdir
      \<and> extract_pages env tmpdir 1 before [] (started tmpdir w) = (Inr pf, w3)
      \<and> run env (separate_cmd pr (part_path tmpdir (1 + int (length before)))) (files w3)
          = (Exited rc err, fs4)
      \<and> (rc \<noteq> 0 \<or> fs4 (part_path tmpdir (1 + int (length before))) = None)
    \<longrightarrow>
      trace (create_pdf env (before @ pr # after) w)
        = trace w @ [Which ''pdfseparate'', Which ''pdfunite'', SaveDialog, MkTemp tmpdir]
          @ map Run (separate_cmds tmpdir 1 (before @ [pr]))
          @ [Cleanup tmpdir,
             ErrorBox ''Export error''
               (''pdfseparate failed for '' @ basename (src_path pr) @ '' page ''
                  @ str_int (page_index pr + 1) @ [newline] @ err)]
      \<and> files (create_pdf env (before @ pr # after) w)
          = (\<lambda>p. if under_dir tmpdir p then None else fs4 p)
      \<and> ((\<forall>cmd fs p. p \<noteq> last cmd \<longrightarrow> snd (run env cmd fs) p = fs p) \<and> \<not> under_dir tmpdir out
          \<longrightarrow> files (create_pdf env (before @ pr # after) w) out = files w out))
   \<and> (which env ''pdfseparate'' \<and> which env ''pdfunite'' \<and> save_file_name env = out \<and> out \<noteq> []
      \<and> mkdtemp env = Inr tmpdir
      \<and> extract_pages env tmpdir 1 before [] (started tmpdir w) = (Inr pf, w3)
      \<and> run env (separate_cmd pr (part_path tmpdir (1 + int (length before)))) (files w3)
          = (Raised msg, fs5)
    \<longrightarrow>
      trace (create_pdf env (before @ pr # after) w)
        = trace w @ [Which ''pdfseparate'', Which ''pdfunite'', SaveDialog, MkTemp tmpdir]
          @ map Run (separate_cmds tmpdir 1 (before @ [pr]))
          @ [Cleanup tmpdir, ErrorBox ''Export error'' msg]
      \<and> files (create_pdf env (before @ pr # after) w)
          = (\<lambda>p. if under_dir tmpdir p then None else fs5 p)
      \<and> ((\<forall>cmd fs p. p \<noteq> last cmd \<longrightarrow> snd (run env cmd fs) p = fs p) \<and> \<not> under_dir tmpdir out
          \<longrightarrow> files (create_pdf env (before @ pr # after) w) out = files w out))
   \<and> (mkdtemp env = Inr tmpdir \<and> (\<forall>p. under_dir tmpdir p \<longrightarrow> files w p = None)
        \<longrightarrow> (\<forall>p. under_dir tmpdir p \<longrightarrow> files (create_pdf env pages w) p = None))"
proof -
  let ?sp = "part_path tmpdir (1 + int (length before))"
  let ?cmd = "separate_cmd pr ?sp"
  let ?text = "''pdfseparate failed for '' @ basename (src_path pr) @ '' page ''
                  @ str_int (page_index pr + 1) @ [newline] @ err"
  have completed: "trace (create_pdf env (before @ pr # after) w)
        = trace w @ [Which ''pdfseparate'', Which ''pdfunite'', SaveDialog, MkTemp tmpdir]
          @ map Run (separate_cmds tmpdir 1 (before @ [pr]))
          @ [Cleanup tmpdir, ErrorBox ''Export error'' ?text]
      \<and> files (create_pdf env (before @ pr # after) w)
          = (\<lambda>p. if under_dir tmpdir p then None else fs4 p)
      \<and> ((\<forall>cmd fs p. p \<noteq> last cmd \<longrightarrow> snd (run env cmd fs) p = fs p) \<and> \<not> under_dir tmpdir out
          \<longrightarrow> files (create_pdf env (before @ pr # after) w) out = files w out)"
    if h: "which env ''pdfseparate'' \<and> which env ''pdfunite'' \<and> save_file_name env = out
      \<and> out \<noteq> [] \<and> mkdtemp env = Inr tmpdir
      \<and> extract_pages env tmpdir 1 before [] (started tmpdir w) = (Inr pf, w3)
      \<and> run env ?cmd (files w3) = (Exited rc err, fs4)
      \<and> (rc \<noteq> 0 \<or> fs4 ?sp = None)"
  proof -
    define w4 where "w4 = \<lparr>files = fs4, trace = trace w3 @ [Run ?cmd]\<rparr>"
    have pre: "which env ''pdfseparate''" "which env ''pdfunite''"
      "save_file_name env = out" "out \<noteq> []" "mkdtemp env = Inr tmpdir"
      using h by simp_all
    have ok: "extract_pages env tmpdir 1 before [] (started tmpdir w) = (Inr pf, w3)"
      using h by simp
    have rn: "run env ?cmd (files w3) = (Exited rc err, fs4)" using h by simp
    have bad: "rc \<noteq> 0 \<or> \<not> path_exists ?sp w4" using h by (simp add: path_exists_def w4_def)
    have sr: "subprocess_run env ?cmd w3 = (Exited rc err, w4)"
      using subprocess_run_eq[OF rn] by (simp add: w4_def)
    have "extract_pages env tmpdir (1 + int (length before)) (pr # after) pf w3
        = (Inl (separate_failed pr err), w4)"
      using sr bad by (auto simp: Let_def)
    then have stop: "extract_pages env tmpdir (1 + int (length before)) (pr # after) pf w3
        = (Inl ?text, \<lparr>files = fs4, trace = trace w3 @ [Run ?cmd]\<rparr>)"
      by (simp add: separate_failed_def w4_def)
    show ?thesis
      using export_stops_at[OF pre ok rn stop] by blast
  qed
  have raised: "trace (create_pdf env (before @ pr # after) w)
        = trace w @ [Which ''pdfseparate'', Which ''pdfunite'', SaveDialog, MkTemp tmpdir]
          @ map Run (separate_cmds tmpdir 1 (before @ [pr]))
          @ [Cleanup tmpdir, ErrorBox ''Export error'' msg]
      \<and> files (create_pdf env (before @ pr # after) w)
          = (\<lambda>p. if under_dir tmpdir p then None else fs5 p)
      \<and> ((\<forall>cmd fs p. p \<noteq> last cmd \<longrightarrow> snd (run env cmd fs) p = fs p) \<and> \<not> under_dir tmpdir out
          \<longrightarrow> files (create_pdf env (before @ pr # after) w) out = files w out)"
    if h: "which env ''pdfseparate'' \<and> which env ''pdfunite'' \<and> save_file_name env = out
      \<and> out \<noteq> [] \<and> mkdtemp env = Inr tmpdir
      \<and> extract_pages env tmpdir 1 before [] (started tmpdir w) = (Inr pf, w3)
      \<and> run env ?cmd (files w3) = (Raised msg, fs5)"
  proof -
    define w5 where "w5 = \<lparr>files = fs5, trace = trace w3 @ [Run ?cmd]\<rparr>"
    have pre: "which env ''pdfseparate''" "which env ''pdfunite''"
      "save_file_name env = out" "out \<noteq> []" "mkdtemp env = Inr tmpdir"
      using h by simp_all
    have ok: "extract_pages env tmpdir 1 before [] (started tmpdir w) = (Inr pf, w3)"
      using h by simp
    have rn: "run env ?cmd (files w3) = (Raised msg, fs5)" using h by simp
    have sr: "subprocess_run env ?cmd w3 = (Raised msg, w5)"
      using subprocess_run_eq[OF rn] by (simp add: w5_def)
    have stop: "extract_pages env tmpdir (1 + int (length before)) (pr # after) pf w3
        = (Inl msg, \<lparr>files = fs5, trace = trace w3 @ [Run ?cmd]\<rparr>)"
      using sr by (simp add: Let_def w5_def)
    show ?thesis
      using export_stops_at[OF pre ok rn stop] by blast
  qed
  have clean: "\<forall>p. under_dir tmpdir p \<longrightarrow> files (create_pdf env pages w) p = None"
    if "mkdtemp env = Inr tmpdir \<and> (\<forall>p. under_dir tmpdir p \<longrightarrow> files w p = None)"
    using that no_temp_left[of env tmpdir w _ pages] by blast
  show ?thesis
    using completed raised clean by blast
qed

theorem C5_extract_failure_aborts_witness:
  "trace (create_pdf (example_env (Some ''/tmp/pdfkiwi_x/part_00003.pdf'') 0)
      [page_of 0, page_of 1, page_of 7, page_of 3, page_of 4] example_world) =
     [Which ''pdfseparate'', Which ''pdfunite'', SaveDialog, MkTemp ''/tmp/pdfkiwi_x'',
      Run [''pdfseparate'', ''-f'', ''1'', ''-l'', ''1'', ''/home/u/a.pdf'',
           ''/tmp/pdfkiwi_x/part_00001.pdf''],
      Run [''pdfseparate'', ''-f'', ''2'', ''-l'', ''2'', ''/home/u/a.pdf'',
           ''/tmp/pdfkiwi_x/part_00002.pdf''],
      Run [''pdfseparate'', ''-f'', ''8'', ''-l'', ''8'', ''/home/u/a.pdf'',
           ''/tmp/pdfkiwi_x/part_00003.pdf''],
      Cleanup ''/tmp/pdfkiwi_x'',
      ErrorBox ''Export error'' (''pdfseparate failed for a.pdf page 8'' @ [newline] @ ''bad page'')]
   \<and> files (create_pdf (example_env (Some ''/tmp/pdfkiwi_x/part_00003.pdf'') 0)
      [page_of 0, page_of 1, page_of 7, page_of 3, page_of 4] example_world) ''/home/u/out.pdf''
      = None
   \<and> files (create_pdf (example_env (Some ''/tmp/pdfkiwi_x/part_00003.pdf'') 0)
      [page_of 0, page_of 1, page_of 7, page_of 3, page_of 4] example_world)
        ''/tmp/pdfkiwi_x/part_00001.pdf'' = None
   \<and> last (trace (create_pdf (raising_env ''/tmp/pdfkiwi_x/part_00002.pdf'')
      [page_of 0, page_of 6, page_of 2] example_world))
      = ErrorBox ''Export error'' ''[Errno 8] Exec format error: pdfseparate''
   \<and> files (create_pdf (raising_env ''/tmp/pdfkiwi_x/part_00002.pdf'')
      [page_of 0, page_of 6, page_of 2] example_world) ''/tmp/pdfkiwi_x/part_00001.pdf'' = None"
proof -
  let ?bad = "''/tmp/pdfkiwi_x/part_00003.pdf''"
  let ?env = "example_env (Some ?bad) 0 :: string env"
  let ?before = "[page_of 0, page_of 1]" and ?after = "[page_of 3, page_of 4]"
  let ?out = "''/home/u/out.pdf''" and ?tmp = "''/tmp/pdfkiwi_x''"
  let ?ex = "extract_pages ?env ?tmp 1 ?before [] (started ?tmp example_world)"
  let ?cmd = "separate_cmd (page_of 7) (part_path ?tmp (1 + int (length ?before)))"
  let ?rn = "run ?env ?cmd (files (snd ?ex))"
  have sp: "part_path ?tmp (1 + int (length ?before)) = ?bad"
    by (simp add: part_path_def path_join_def format_05d_def zfill_def str_nat.simps
        digit_char_def eval_nat_numeral)
  have ok: "?ex = (Inr (part_files_of ?tmp 1 2), snd ?ex)"
    by (simp add: eval_defs part_files_of_def upto_rec1)
  have rn: "?rn = (Exited 1 ''bad page'', snd ?rn)"
    unfolding sp by (simp add: example_env_def example_run_def separate_cmd_def)
  have h: "which ?env ''pdfseparate'' \<and> which ?env ''pdfunite'' \<and> save_file_name ?env = ?out
      \<and> ?out \<noteq> [] \<and> mkdtemp ?env = Inr ?tmp
      \<and> ?ex = (Inr (part_files_of ?tmp 1 2), snd ?ex)
      \<and> ?rn = (Exited 1 ''bad page'', snd ?rn)
      \<and> ((1::int) \<noteq> 0 \<or> snd ?rn (part_path ?tmp (1 + int (length ?before))) = None)"
    using ok rn by (simp add: example_env_def)
  have fr: "(\<forall>cmd fs p. p \<noteq> last cmd \<longrightarrow> snd (run ?env cmd fs) p = fs p) \<and> \<not> under_dir ?tmp ?out"
    by (simp add: example_env_def example_run_frame under_dir_def)
  have fresh: "mkdtemp ?env = Inr ?tmp \<and> (\<forall>p. under_dir ?tmp p \<longrightarrow> files example_world p = None)"
    by (auto simp: example_env_def example_world_def under_dir_def)
  note inst = C5_extract_failure_aborts [where env = ?env and out = ?out and tmpdir = ?tmp
      and before = ?before and w = example_world and pf = "part_files_of ?tmp 1 2"
      and ?w3.0 = "snd ?ex" and pr = "page_of 7" and rc = 1 and err = "''bad page''"
      and ?fs4.0 = "snd ?rn" and after = ?after
      and pages = "?before @ page_of 7 # ?after"]
  have a: "trace (create_pdf ?env (?before @ page_of 7 # ?after) example_world)
        = trace example_world @ [Which ''pdfseparate'', Which ''pdfunite'', SaveDialog, MkTemp ?tmp]
          @ map Run (separate_cmds ?tmp 1 (?before @ [page_of 7]))
          @ [Cleanup ?tmp,
             ErrorBox ''Export error''
               (''pdfseparate failed for '' @ basename (src_path (page_of 7)) @ '' page ''
                  @ str_int (page_index (page_of 7) + 1) @ [newline] @ ''bad page'')]"
    using inst h by blast
  have b: "files (create_pdf ?env (?before @ page_of 7 # ?after) example_world) ?out
      = files example_world ?out"
    using inst h fr by blast
  have c: "files (create_pdf ?env (?before @ page_of 7 # ?after) example_world)
      ''/tmp/pdfkiwi_x/part_00001.pdf'' = None"
  proof -
    have "under_dir ?tmp ''/tmp/pdfkiwi_x/part_00001.pdf''" by (simp add: under_dir_def)
    then show ?thesis using inst fresh by blast
  qed
  have cm: "separate_cmds ?tmp 1 (?before @ [page_of 7]) =
     [[''pdfseparate'', ''-f'', ''1'', ''-l'', ''1'', ''/home/u/a.pdf'', ''/tmp/pdfkiwi_x/part_00001.pdf''],
      [''pdfseparate'', ''-f'', ''2'', ''-l'', ''2'', ''/home/u/a.pdf'', ''/tmp/pdfkiwi_x/part_00002.pdf''],
      [''pdfseparate'', ''-f'', ''8'', ''-l'', ''8'', ''/home/u/a.pdf'', ''/tmp/pdfkiwi_x/part_00003.pdf'']]"
    by (simp add: separate_cmds_def part_files_of_def upto_rec1 part_path_def path_join_def
        format_05d_def zfill_def separate_cmd_def page_of_def str_int_def str_nat.simps
        digit_char_def eval_nat_numeral)
  have msg: "''pdfseparate failed for '' @ basename (src_path (page_of 7)) @ '' page ''
                  @ str_int (page_index (page_of 7) + 1) @ [newline] @ ''bad page''
      = ''pdfseparate failed for a.pdf page 8'' @ [newline] @ ''bad page''"
    by (simp add: page_of_def basename_def str_int_def str_nat.simps digit_char_def)
  let ?renv = "raising_env ''/tmp/pdfkiwi_x/part_00002.pdf''"
  let ?rex = "extract_pages ?renv ?tmp 1 [page_of 0] [] (started ?tmp example_world)"
  let ?rcmd = "separate_cmd (page_of 6) (part_path ?tmp (1 + int (length [page_of 0])))"
  let ?rrn = "run ?renv ?rcmd (files (snd ?rex))"
  have rsp: "part_path ?tmp (1 + int (length [page_of 0])) = ''/tmp/pdfkiwi_x/part_00002.pdf''"
    by (simp add: part_path_def path_join_def format_05d_def zfill_def str_nat.simps
        digit_char_def eval_nat_numeral)
  have rok: "?rex = (Inr (part_files_of ?tmp 1 1), snd ?rex)"
    by (simp add: eval_defs raising_env_def raising_run_def part_files_of_def upto_rec1)
  have rrn: "?rrn = (Raised ''[Errno 8] Exec format error: pdfseparate'', snd ?rrn)"
    unfolding rsp by (simp add: raising_env_def raising_run_def separate_cmd_def)
  have rh: "which ?renv ''pdfseparate'' \<and> which ?renv ''pdfunite'' \<and> save_file_name ?renv = ?out
      \<and> ?out \<noteq> [] \<and> mkdtemp ?renv = Inr ?tmp
      \<and> ?rex = (Inr (part_files_of ?tmp 1 1), snd ?rex)
      \<and> ?rrn = (Raised ''[Errno 8] Exec format error: pdfseparate'', snd ?rrn)"
    using rok rrn by (simp add: raising_env_def)
  note rinst = C5_extract_failure_aborts [where env = ?renv and out = ?out and tmpdir = ?tmp
      and before = "[page_of 0]" and w = example_world and pf = "part_files_of ?tmp 1 1"
      and ?w3.0 = "snd ?rex" and pr = "page_of 6"
      and msg = "''[Errno 8] Exec format error: pdfseparate''"
      and ?fs5.0 = "snd ?rrn" and after = "[page_of 2]"]
  have rt: "trace (create_pdf ?renv ([page_of 0] @ page_of 6 # [page_of 2]) example_world)
        = (trace example_world @ [Which ''pdfseparate'', Which ''pdfunite'', SaveDialog, MkTemp ?tmp]
          @ map Run (separate_cmds ?tmp 1 ([page_of 0] @ [page_of 6]))
          @ [Cleanup ?tmp]) @ [ErrorBox ''Export error'' ''[Errno 8] Exec format error: pdfseparate'']"
    using rinst rh by simp
  have d: "last (trace (create_pdf ?renv ([page_of 0] @ page_of 6 # [page_of 2]) example_world))
      = ErrorBox ''Export error'' ''[Errno 8] Exec format error: pdfseparate''"
    unfolding rt by (simp only: last_snoc)
  have rfl: "files (create_pdf ?renv ([page_of 0] @ page_of 6 # [page_of 2]) example_world)
      = (\<lambda>p. if under_dir ?tmp p then None else snd ?rrn p)"
    using rinst rh by blast
  have e: "files (create_pdf ?renv ([page_of 0] @ page_of 6 # [page_of 2]) example_world)
      ''/tmp/pdfkiwi_x/part_00001.pdf'' = None"
    unfolding rfl by (simp add: under_dir_def)
  show ?thesis
    using a b c d e unfolding cm msg by (simp add: example_world_def)
qed




end
